theory Spec2Isabelle
  imports Complex_Main
begin

section \<open>The JAC solver of pyEIT (\<^verbatim>\<open>pyeit/eit/jac.py\<close>)\<close>

text \<open>
  The module holds the class \<^verbatim>\<open>JAC\<close> (methods \<^verbatim>\<open>setup\<close>, \<^verbatim>\<open>solve\<close>, \<^verbatim>\<open>map\<close>,
  \<^verbatim>\<open>solve_gs\<close>, \<^verbatim>\<open>bp_solve\<close>, \<^verbatim>\<open>gn\<close>) and the functions \<^verbatim>\<open>h_matrix\<close> and
  \<^verbatim>\<open>sar\<close>. All of them compute on NumPy arrays.

  Conventions of the embedding.
  \<^item> A \<^verbatim>\<open>float64\<close> or \<^verbatim>\<open>complex128\<close> entry is an exact complex number: rounding is
    not modelled, every arithmetic operation is the exact one. A real array is a
    complex array whose entries have imaginary part 0. The one exception is
    \<open>solve_gs_fl\<close>, the body of \<^verbatim>\<open>solve_gs\<close> over an arithmetic that may round.
  \<^item> A 1-D array is the list of its entries. A 2-D array is the list of its rows,
    all of the same length; the array without rows is \<open>[]\<close>.
  \<^item> An exception is a value \<open>Inl e\<close> of the result type \<open>error + 'a\<close>.
  \<^item> NumPy does not raise on a division by zero or on a zero raised to a negative
    power: it warns, stores \<^verbatim>\<open>inf\<close> or \<^verbatim>\<open>nan\<close> and goes on. Such a run has no
    finite result; whatever it then returns or raises is the one value
    \<open>Inl NonFinite\<close>. (\<^verbatim>\<open>solve_gs\<close> is followed more closely: see there.)
  \<^item> \<^verbatim>\<open>verbose\<close> only prints and is left out.
\<close>

subsection \<open>Arrays and errors\<close>

type_synonym vec = "complex list"
type_synonym mat = "complex list list"

datatype error =
    ValueError
  | LinAlgError
  | IndexError
  | ForwardModelError
  | ConfigurationError
  | NonFinite

text \<open>\<^verbatim>\<open>a.shape[1]\<close> of a 2-D array.\<close>

definition ncols :: "'a list list \<Rightarrow> nat" where
  "ncols A = (case A of [] \<Rightarrow> 0 | r # _ \<Rightarrow> length r)"

text \<open>\<^verbatim>\<open>a.transpose()\<close>, \<^verbatim>\<open>a.T\<close> and \<^verbatim>\<open>a.conjugate()\<close>.\<close>

definition transpose_m :: "mat \<Rightarrow> mat" where
  "transpose_m A = map (\<lambda>j. map (\<lambda>r. r ! j) A) [0..<ncols A]"

definition conjugate_m :: "mat \<Rightarrow> mat" where
  "conjugate_m A = map (map cnj) A"

text \<open>
  \<^verbatim>\<open>np.dot\<close> on two 1-D arrays (the plain sum of products, nothing is conjugated),
  on a 2-D and a 1-D array, and on two 2-D arrays. A shape mismatch raises
  \<^verbatim>\<open>ValueError\<close>.
\<close>

definition inner_u :: "vec \<Rightarrow> vec \<Rightarrow> complex" where
  "inner_u x y = sum_list (map2 (*) x y)"

definition dot_vv :: "vec \<Rightarrow> vec \<Rightarrow> error + complex" where
  "dot_vv x y = (if length x = length y then Inr (inner_u x y) else Inl ValueError)"

definition dot_mv :: "mat \<Rightarrow> vec \<Rightarrow> error + vec" where
  "dot_mv A x =
     (if list_all (\<lambda>r. length r = length x) A
      then Inr (map (\<lambda>r. inner_u r x) A)
      else Inl ValueError)"

definition dot_mm :: "mat \<Rightarrow> mat \<Rightarrow> error + mat" where
  "dot_mm A B =
     (if list_all (\<lambda>r. length r = length B) A
      then Inr (map (\<lambda>r. map (\<lambda>c. inner_u r c) (transpose_m B)) A)
      else Inl ValueError)"

text \<open>
  Elementwise \<^verbatim>\<open>x - y\<close> and \<^verbatim>\<open>x / y\<close> on 1-D arrays, with NumPy's broadcasting
  of an array of length 1.
\<close>

definition np_sub :: "vec \<Rightarrow> vec \<Rightarrow> error + vec" where
  "np_sub x y =
     (if length x = length y then Inr (map2 (-) x y)
      else if length y = 1 then Inr (map (\<lambda>a. a - hd y) x)
      else if length x = 1 then Inr (map (\<lambda>b. hd x - b) y)
      else Inl ValueError)"

definition np_div :: "vec \<Rightarrow> vec \<Rightarrow> error + vec" where
  "np_div x y =
     (if length x \<noteq> length y \<and> length y \<noteq> 1 \<and> length x \<noteq> 1 then Inl ValueError
      else if list_ex (\<lambda>b. b = 0) y then Inl NonFinite
      else if length x = length y then Inr (map2 (/) x y)
      else if length y = 1 then Inr (map (\<lambda>a. a / hd y) x)
      else Inr (map (\<lambda>b. hd x / b) y))"

definition np_neg :: "vec \<Rightarrow> vec" where
  "np_neg x = map uminus x"

text \<open>\<^verbatim>\<open>a * x\<close> for a scalar \<open>a\<close>, on a 1-D and on a 2-D array.\<close>

definition scale_v :: "complex \<Rightarrow> vec \<Rightarrow> vec" where
  "scale_v a x = map ((*) a) x"

definition scale_m :: "complex \<Rightarrow> mat \<Rightarrow> mat" where
  "scale_m a A = map (map ((*) a)) A"

text \<open>\<^verbatim>\<open>A + B\<close> on two 2-D arrays of one shape.\<close>

definition add_m :: "mat \<Rightarrow> mat \<Rightarrow> mat" where
  "add_m A B = map2 (map2 (+)) A B"

text \<open>\<^verbatim>\<open>np.eye(n)\<close>, \<^verbatim>\<open>np.diag\<close> of a square 2-D array and \<^verbatim>\<open>np.diag\<close> of a 1-D array.\<close>

definition eye :: "nat \<Rightarrow> 'a::zero_neq_one list list" where
  "eye n = map (\<lambda>i. map (\<lambda>j. if i = j then 1 else 0) [0..<n]) [0..<n]"

definition diag_of :: "mat \<Rightarrow> vec" where
  "diag_of A = map (\<lambda>i. A ! i ! i) [0..<length A]"

definition diag_m :: "vec \<Rightarrow> mat" where
  "diag_m d = map (\<lambda>i. map (\<lambda>j. if i = j then d ! i else 0) [0..<length d]) [0..<length d]"

text \<open>
  \<^verbatim>\<open>z ** p\<close> for a Python float \<open>p\<close>: 1 when \<open>p = 0\<close> (also for \<open>z = 0\<close>), 0 for
  \<open>z = 0\<close> and \<open>p > 0\<close>, \<^verbatim>\<open>inf\<close> for \<open>z = 0\<close> and \<open>p < 0\<close>, and the principal value
  \<open>|z|\<^sup>p (cos (p arg z) + i sin (p arg z))\<close> otherwise (for a real \<open>z > 0\<close> the real
  power). The code raises the diagonal of \<open>J\<^sup>T J\<close> only; for a real \<open>J\<close> its entries
  are sums of squares, so no negative real number is raised to a power.
\<close>

definition np_power :: "complex \<Rightarrow> real \<Rightarrow> complex option" where
  "np_power z p =
     (if p = 0 then Some 1
      else if z = 0 then (if 0 < p then Some 0 else None)
      else Some (rcis (cmod z powr p) (p * Arg z)))"

definition power_v :: "vec \<Rightarrow> real \<Rightarrow> error + vec" where
  "power_v d p =
     (case those (map (\<lambda>z. np_power z p) d) of
        None \<Rightarrow> Inl NonFinite
      | Some w \<Rightarrow> Inr w)"

subsection \<open>\<^verbatim>\<open>scipy.linalg.inv\<close> and \<^verbatim>\<open>scipy.linalg.solve\<close>\<close>

text \<open>
  Both are library functions. In exact arithmetic they are Gauss-Jordan elimination
  on the rows of the matrix, each paired with its row of the right-hand side: for
  every column \<open>k\<close> the first remaining row with a nonzero entry there is the pivot
  (none: the matrix is singular, \<^verbatim>\<open>LinAlgError\<close>), it is scaled to 1 in column \<open>k\<close>
  and subtracted from all other rows. A matrix that is not square, or a right-hand
  side of another length, raises \<^verbatim>\<open>ValueError\<close>.
\<close>

type_synonym aug_row = "vec \<times> vec"

definition row_scale :: "complex \<Rightarrow> aug_row \<Rightarrow> aug_row" where
  "row_scale c r = (map ((*) c) (fst r), map ((*) c) (snd r))"

definition row_elim :: "nat \<Rightarrow> aug_row \<Rightarrow> aug_row \<Rightarrow> aug_row" where
  "row_elim k piv r =
     (map2 (\<lambda>x y. x - fst r ! k * y) (fst r) (fst piv),
      map2 (\<lambda>x y. x - fst r ! k * y) (snd r) (snd piv))"

fun gauss_jordan :: "nat list \<Rightarrow> aug_row list \<Rightarrow> aug_row list \<Rightarrow> aug_row list option" where
  "gauss_jordan [] upper rest = Some upper"
| "gauss_jordan (k # ks) upper rest =
     (case dropWhile (\<lambda>r. fst r ! k = 0) rest of
        [] \<Rightarrow> None
      | r # below \<Rightarrow>
          gauss_jordan ks
            (map (row_elim k (row_scale (1 / fst r ! k) r)) upper
               @ [row_scale (1 / fst r ! k) r])
            (map (row_elim k (row_scale (1 / fst r ! k) r))
               (takeWhile (\<lambda>r. fst r ! k = 0) rest @ below)))"

definition is_square :: "mat \<Rightarrow> bool" where
  "is_square A = list_all (\<lambda>r. length r = length A) A"

definition la_inv :: "mat \<Rightarrow> error + mat" where
  "la_inv A =
     (if \<not> is_square A then Inl ValueError
      else case gauss_jordan [0..<length A] [] (zip A (eye (length A))) of
             None \<Rightarrow> Inl LinAlgError
           | Some rows \<Rightarrow> Inr (map snd rows))"

definition la_solve :: "mat \<Rightarrow> vec \<Rightarrow> error + vec" where
  "la_solve A b =
     (if \<not> is_square A \<or> length b \<noteq> length A then Inl ValueError
      else case gauss_jordan [0..<length A] [] (zip A (map (\<lambda>x. [x]) b)) of
             None \<Rightarrow> Inl LinAlgError
           | Some rows \<Rightarrow> Inr (map (\<lambda>r. hd (snd r)) rows))"

text \<open>
  Predicates on the rows of an elimination, for its correctness proof: a row has
  \<open>n\<close> entries on the left and \<open>m\<close> on the right; \<open>x\<close> solves the equation of a
  row for column \<open>j\<close> of the right-hand side; \<open>x\<close> is in the kernel of a row.
\<close>

definition row_ok :: "nat \<Rightarrow> nat \<Rightarrow> aug_row \<Rightarrow> bool" where
  "row_ok n m r = (length (fst r) = n \<and> length (snd r) = m)"

definition sol :: "nat \<Rightarrow> vec \<Rightarrow> aug_row \<Rightarrow> bool" where
  "sol j x r = (inner_u (fst r) x = snd r ! j)"

definition in_kernel :: "vec \<Rightarrow> aug_row \<Rightarrow> bool" where
  "in_kernel x r = (inner_u (fst r) x = 0)"

subsection \<open>The \<^verbatim>\<open>method\<close> argument\<close>

text \<open>
  \<^verbatim>\<open>method\<close> is any Python object; the code looks at it with \<^verbatim>\<open>method is None\<close> and
  \<^verbatim>\<open>method is 'kotre'\<close> only. \<^verbatim>\<open>is\<close> compares identities: a string is the object of
  the literal \<^verbatim>\<open>'kotre'\<close> when it has these characters and is interned (every string
  literal of a program that reads like an identifier is; a string built at run time
  is not).
\<close>

datatype method_arg = PyNone | PyStr (interned: bool) (chars: string)

definition is_kotre :: "method_arg \<Rightarrow> bool" where
  "is_kotre m = (m = PyStr True ''kotre'')"

abbreviation kotre :: method_arg where
  "kotre \<equiv> PyStr True ''kotre''"

abbreviation lm :: method_arg where
  "lm \<equiv> PyStr True ''lm''"

subsection \<open>\<^verbatim>\<open>h_matrix\<close>\<close>

text \<open>The regularisation matrix, as both \<^verbatim>\<open>h_matrix\<close> and \<^verbatim>\<open>gn\<close> build it.\<close>

definition r_matrix :: "mat \<Rightarrow> mat \<Rightarrow> real \<Rightarrow> method_arg \<Rightarrow> error + mat" where
  "r_matrix jac j_w_j p method =
     (if is_kotre method
      then (case power_v (diag_of j_w_j) p of
              Inl e \<Rightarrow> Inl e
            | Inr d \<Rightarrow> Inr (diag_m d))
      else Inr (eye (ncols jac)))"

definition h_matrix :: "mat \<Rightarrow> real \<Rightarrow> real \<Rightarrow> method_arg \<Rightarrow> error + mat" where
  "h_matrix jac p lamb method =
     (case dot_mm (transpose_m jac) jac of
        Inl e \<Rightarrow> Inl e
      | Inr j_w_j \<Rightarrow>
          (case r_matrix jac j_w_j p method of
             Inl e \<Rightarrow> Inl e
           | Inr r_mat \<Rightarrow>
               (case la_inv (add_m j_w_j (scale_m (of_real lamb) r_mat)) of
                  Inl e \<Rightarrow> Inl e
                | Inr ih \<Rightarrow> dot_mm ih (transpose_m jac))))"

text \<open>
  The pseudo-inverse as the specification words it, on an enumerated method:
  \<open>G = J\<^sup>H J\<close> with the conjugate transpose \<open>J\<^sup>H\<close>, \<open>R = diag (diag G ** p)\<close> for kotre
  and the identity for lm, and \<open>H = (G + lamb R)\<^sup>-\<^sup>1 J\<^sup>H\<close>.
\<close>

datatype reg_method = Kotre | Lm

definition h_matrix_spec :: "mat \<Rightarrow> real \<Rightarrow> real \<Rightarrow> reg_method \<Rightarrow> error + mat" where
  "h_matrix_spec jac p lamb method =
     (case dot_mm (conjugate_m (transpose_m jac)) jac of
        Inl e \<Rightarrow> Inl e
      | Inr g \<Rightarrow>
          (case (case method of
                   Kotre \<Rightarrow> (case power_v (diag_of g) p of
                               Inl e \<Rightarrow> Inl e
                             | Inr d \<Rightarrow> Inr (diag_m d))
                 | Lm \<Rightarrow> Inr (eye (ncols jac))) of
             Inl e \<Rightarrow> Inl e
           | Inr r \<Rightarrow>
               (case la_inv (add_m g (scale_m (of_real lamb) r)) of
                  Inl e \<Rightarrow> Inl e
                | Inr ih \<Rightarrow> dot_mm ih (conjugate_m (transpose_m jac)))))"

text \<open>A 2-D array of real numbers: every entry has imaginary part 0.\<close>

definition real_matrix :: "mat \<Rightarrow> bool" where
  "real_matrix A = list_all (\<lambda>r. length r = ncols A \<and> list_all (\<lambda>z. Im z = 0) r) A"

subsection \<open>The class \<^verbatim>\<open>JAC\<close>\<close>

text \<open>
  The attributes of a solver object that the methods read or write. \<open>fwd_solve s x\<close>
  is the call \<^verbatim>\<open>self.fwd.solve(self.ex_mat, step=self.step, perm=x, parser=self.parser)\<close>
  of the forward model, which is not part of the module: \<open>None\<close> when it raises,
  else its result with the attributes \<^verbatim>\<open>v\<close> and \<^verbatim>\<open>jac\<close>. The dictionary
  \<^verbatim>\<open>self.params\<close> has the three keys \<^verbatim>\<open>'p'\<close>, \<^verbatim>\<open>'lamb'\<close> and \<^verbatim>\<open>'method'\<close>.
\<close>

record fwd_result =
  fs_v :: vec
  fs_jac :: mat

record jac_solver =
  J :: mat
  H :: mat
  par_p :: real
  par_lamb :: real
  par_method :: method_arg
  perm :: vec
  fwd_solve :: "vec \<Rightarrow> fwd_result option"

text \<open>\<^verbatim>\<open>setup(self, p=0.20, lamb=0.001, method='kotre')\<close>, all arguments given
  (\<open>setup\<close> is a keyword of Isabelle, hence the name).\<close>

definition jac_setup :: "jac_solver \<Rightarrow> real \<Rightarrow> real \<Rightarrow> method_arg \<Rightarrow> error + jac_solver" where
  "jac_setup self p lamb method =
     (case h_matrix (J self) p lamb method of
        Inl e \<Rightarrow> Inl e
      | Inr h \<Rightarrow> Inr (self\<lparr>H := h, par_p := p, par_lamb := lamb, par_method := method\<rparr>))"

text \<open>
  The first statement of \<^verbatim>\<open>solve\<close> and of \<^verbatim>\<open>bp_solve\<close>:
  \<^verbatim>\<open>dv = - (v1 - v0) / v0\<close> when \<^verbatim>\<open>normalize\<close> is true, \<^verbatim>\<open>dv = (v1 - v0)\<close>
  otherwise.
\<close>

definition difference :: "vec \<Rightarrow> vec \<Rightarrow> bool \<Rightarrow> error + vec" where
  "difference v1 v0 normalized =
     (case np_sub v1 v0 of
        Inl e \<Rightarrow> Inl e
      | Inr d \<Rightarrow> if normalized then np_div (np_neg d) v0 else Inr d)"

text \<open>\<^verbatim>\<open>solve(self, v1, v0, normalize=False)\<close>.\<close>

definition solve :: "jac_solver \<Rightarrow> vec \<Rightarrow> vec \<Rightarrow> bool \<Rightarrow> error + vec" where
  "solve self v1 v0 normalized =
     (case difference v1 v0 normalized of
        Inl e \<Rightarrow> Inl e
      | Inr dv \<Rightarrow>
          (case dot_mv (H self) dv of
             Inl e \<Rightarrow> Inl e
           | Inr hv \<Rightarrow> Inr (np_neg hv)))"

text \<open>\<^verbatim>\<open>map(self, v)\<close>.\<close>

definition map_v :: "jac_solver \<Rightarrow> vec \<Rightarrow> error + vec" where
  "map_v self v =
     (case dot_mv (H self) v of
        Inl e \<Rightarrow> Inl e
      | Inr hv \<Rightarrow> Inr (np_neg hv))"

text \<open>
  \<^verbatim>\<open>solve_gs(self, v1, v0)\<close>:
  \<^verbatim>\<open>a = np.dot(v1, v0) / np.dot(v0, v0); dv = (v1 - a*v0); ds = -np.dot(self.H, dv)\<close>.
  The two \<^verbatim>\<open>np.dot\<close> raise on frames of different lengths, the last one on an \<open>H\<close>
  whose rows are not as long as the frame. The quotient is a NumPy division: with
  the divisor 0 the gain \<open>a\<close> is \<^verbatim>\<open>nan\<close> or \<^verbatim>\<open>inf\<close>, no exception is raised, every
  entry of \<open>a*v0\<close> and of \<open>dv\<close> is \<^verbatim>\<open>nan\<close> or \<^verbatim>\<open>inf\<close>, and so is every entry of the
  product with \<open>H\<close>. Only a frame without entries (then \<open>dv\<close> is empty and the
  product is a vector of zeros) or an \<open>H\<close> without rows (then the product is empty)
  leaves nothing to spoil: these two runs return what the arithmetic gives.
\<close>

definition solve_gs :: "jac_solver \<Rightarrow> vec \<Rightarrow> vec \<Rightarrow> error + vec" where
  "solve_gs self v1 v0 =
     (case dot_vv v1 v0 of
        Inl e \<Rightarrow> Inl e
      | Inr n \<Rightarrow>
          (case dot_vv v0 v0 of
             Inl e \<Rightarrow> Inl e
           | Inr d \<Rightarrow>
               (case np_sub v1 (scale_v (n / d) v0) of
                  Inl e \<Rightarrow> Inl e
                | Inr dv \<Rightarrow>
                    (case dot_mv (H self) dv of
                       Inl e \<Rightarrow> Inl e
                     | Inr hv \<Rightarrow>
                         if d = 0 \<and> v0 \<noteq> [] \<and> H self \<noteq> [] then Inl NonFinite
                         else Inr (np_neg hv)))))"

text \<open>
  The same body over an arithmetic that may round. The four operations of the
  body are the fields of a record: \<^verbatim>\<open>np.dot\<close> of two 1-D arrays (a row of
  \<^verbatim>\<open>np.dot(self.H, dv)\<close> is one such product), the division of two scalars, the
  product of a scalar and an entry, the difference of two entries. The negation
  is exact in every binary floating-point format. The operations return numbers:
  a run that overflows to \<^verbatim>\<open>inf\<close> is outside of this model, a divisor that is the
  float 0 is not. \<open>exact_ops\<close> is the arithmetic of the rest of the theory.
\<close>

record float_ops =
  fl_dot :: "vec \<Rightarrow> vec \<Rightarrow> complex"
  fl_div :: "complex \<Rightarrow> complex \<Rightarrow> complex"
  fl_mul :: "complex \<Rightarrow> complex \<Rightarrow> complex"
  fl_sub :: "complex \<Rightarrow> complex \<Rightarrow> complex"

definition exact_ops :: float_ops where
  "exact_ops = \<lparr>fl_dot = inner_u, fl_div = (/), fl_mul = (*), fl_sub = (-)\<rparr>"

text \<open>\<^verbatim>\<open>a = np.dot(v1, v0) / np.dot(v0, v0)\<close> and \<^verbatim>\<open>dv = (v1 - a*v0)\<close>.\<close>

definition gs_gain :: "float_ops \<Rightarrow> vec \<Rightarrow> vec \<Rightarrow> complex" where
  "gs_gain ops v1 v0 = fl_div ops (fl_dot ops v1 v0) (fl_dot ops v0 v0)"

definition gs_dv :: "float_ops \<Rightarrow> vec \<Rightarrow> vec \<Rightarrow> vec" where
  "gs_dv ops v1 v0 = map2 (fl_sub ops) v1 (map (fl_mul ops (gs_gain ops v1 v0)) v0)"

definition solve_gs_fl :: "float_ops \<Rightarrow> jac_solver \<Rightarrow> vec \<Rightarrow> vec \<Rightarrow> error + vec" where
  "solve_gs_fl ops self v1 v0 =
     (if length v1 \<noteq> length v0 then Inl ValueError
      else if \<not> list_all (\<lambda>r. length r = length v0) (H self) then Inl ValueError
      else if fl_dot ops v0 v0 = 0 \<and> v0 \<noteq> [] \<and> H self \<noteq> [] then Inl NonFinite
      else Inr (map (\<lambda>r. - fl_dot ops r (gs_dv ops v1 v0)) (H self)))"

text \<open>
  The usual measures of a rounding-error analysis. \<open>abs_dot x y\<close> is the sum of
  the \<open>|x\<^sub>i| |y\<^sub>i|\<close>. \<open>gs_accurate ops u g h v1 v0\<close> says that on the run
  \<^verbatim>\<open>solve_gs(v1, v0)\<close> with the matrix \<open>h\<close> every operation of \<open>ops\<close> is near the
  exact one: a division, a product or a difference has a relative error of at most
  \<open>u\<close>, a dot product is off by at most \<open>g\<close> times the \<open>abs_dot\<close> of its arguments.
  IEEE arithmetic without overflow and underflow is of this kind, with \<open>u\<close> a small
  multiple of the unit roundoff and \<open>g\<close> about the length of the frame times \<open>u\<close>.
\<close>

definition abs_dot :: "vec \<Rightarrow> vec \<Rightarrow> real" where
  "abs_dot x y = sum_list (map2 (\<lambda>a b. cmod a * cmod b) x y)"

definition gs_accurate :: "float_ops \<Rightarrow> real \<Rightarrow> real \<Rightarrow> mat \<Rightarrow> vec \<Rightarrow> vec \<Rightarrow> bool" where
  "gs_accurate ops u g h v1 v0 =
     (cmod (fl_dot ops v1 v0 - inner_u v1 v0) \<le> g * abs_dot v1 v0
      \<and> cmod (fl_dot ops v0 v0 - inner_u v0 v0) \<le> g * abs_dot v0 v0
      \<and> cmod (gs_gain ops v1 v0 - fl_dot ops v1 v0 / fl_dot ops v0 v0)
          \<le> u * cmod (fl_dot ops v1 v0 / fl_dot ops v0 v0)
      \<and> list_all (\<lambda>z. cmod (fl_mul ops (gs_gain ops v1 v0) z - gs_gain ops v1 v0 * z)
                        \<le> u * cmod (gs_gain ops v1 v0 * z)) v0
      \<and> list_all (\<lambda>xy. cmod (fl_sub ops (fst xy) (snd xy) - (fst xy - snd xy))
                         \<le> u * cmod (fst xy - snd xy))
           (zip v1 (map (fl_mul ops (gs_gain ops v1 v0)) v0))
      \<and> list_all (\<lambda>r. cmod (fl_dot ops r (gs_dv ops v1 v0) - inner_u r (gs_dv ops v1 v0))
                        \<le> g * abs_dot r (gs_dv ops v1 v0)) h)"

text \<open>
  The bounds that follow from these. With \<open>S = abs_dot v0 v0\<close> and
  \<open>s = |np.dot(v0, v0)|\<close> the computed gain of a frame \<open>c*v0\<close> is within
  \<open>|c| * gs_gain_err u g S s\<close> of \<open>c\<close>, and an entry of the estimate is at most
  \<open>gs_bound u g S s\<close> times \<open>|c|\<close> times the \<open>abs_dot\<close> of \<open>v0\<close> and of the row of
  \<open>H\<close>. Both are 0 for \<open>u = g = 0\<close>.
\<close>

definition gs_gain_err :: "real \<Rightarrow> real \<Rightarrow> real \<Rightarrow> real \<Rightarrow> real" where
  "gs_gain_err u g S s = u + (1 + u) * (2 * g * S / (s - g * S))"

definition gs_bound :: "real \<Rightarrow> real \<Rightarrow> real \<Rightarrow> real \<Rightarrow> real" where
  "gs_bound u g S s = (1 + g) * ((1 + u) * (gs_gain_err u g S s + u * (1 + gs_gain_err u g S s)))"

text \<open>\<^verbatim>\<open>bp_solve(self, v1, v0, normalize=False)\<close>.\<close>

definition bp_solve :: "jac_solver \<Rightarrow> vec \<Rightarrow> vec \<Rightarrow> bool \<Rightarrow> error + vec" where
  "bp_solve self v1 v0 normalized =
     (case difference v1 v0 normalized of
        Inl e \<Rightarrow> Inl e
      | Inr dv \<Rightarrow>
          (case dot_mv (conjugate_m (transpose_m (J self))) dv of
             Inl e \<Rightarrow> Inl e
           | Inr jv \<Rightarrow> Inr (np_neg jv)))"

subsection \<open>\<^verbatim>\<open>gn\<close>\<close>

text \<open>
  The variables the loop of \<^verbatim>\<open>gn\<close> updates are \<^verbatim>\<open>x0\<close> and \<^verbatim>\<open>lamb\<close>. Two ghost
  fields record what the loop did: the number of calls of the forward model, and the
  values of \<^verbatim>\<open>lamb\<close> that entered \<^verbatim>\<open>h_mat = j_w_j + lamb*r_mat\<close>, in order.
\<close>

record gn_state =
  cur_x0 :: vec
  cur_lamb :: real
  fwd_calls :: nat
  lambs_used :: "real list"

text \<open>One run of the loop body.\<close>

definition gn_body ::
  "jac_solver \<Rightarrow> vec \<Rightarrow> real \<Rightarrow> method_arg \<Rightarrow> real \<Rightarrow> real \<Rightarrow> gn_state \<Rightarrow> error + gn_state" where
  "gn_body self v p method lamb_decay lamb_min st =
     (case fwd_solve self (cur_x0 st) of
        None \<Rightarrow> Inl ForwardModelError
      | Some fs \<Rightarrow>
     (case np_sub v (fs_v fs) of
        Inl e \<Rightarrow> Inl e
      | Inr r0 \<Rightarrow>
     (case dot_mv (conjugate_m (transpose_m (fs_jac fs))) r0 of
        Inl e \<Rightarrow> Inl e
      | Inr j_r \<Rightarrow>
     (case dot_mm (conjugate_m (transpose_m (fs_jac fs))) (fs_jac fs) of
        Inl e \<Rightarrow> Inl e
      | Inr j_w_j \<Rightarrow>
     (case r_matrix (fs_jac fs) j_w_j p method of
        Inl e \<Rightarrow> Inl e
      | Inr r_mat \<Rightarrow>
     (case la_solve (add_m j_w_j (scale_m (of_real (cur_lamb st)) r_mat)) j_r of
        Inl e \<Rightarrow> Inl e
      | Inr d_k \<Rightarrow>
     (case np_sub (cur_x0 st) d_k of
        Inl e \<Rightarrow> Inl e
      | Inr x1 \<Rightarrow>
          Inr \<lparr>cur_x0 = x1,
               cur_lamb = (if cur_lamb st > lamb_min then cur_lamb st * lamb_decay
                           else cur_lamb st),
               fwd_calls = Suc (fwd_calls st),
               lambs_used = lambs_used st @ [cur_lamb st]\<rparr>)))))))"

text \<open>\<^verbatim>\<open>for i in range(maxiter)\<close>: the body runs \<open>nat maxiter\<close> times, or until it raises.\<close>

fun gn_loop ::
  "jac_solver \<Rightarrow> vec \<Rightarrow> real \<Rightarrow> method_arg \<Rightarrow> real \<Rightarrow> real \<Rightarrow> nat \<Rightarrow> gn_state \<Rightarrow> error + gn_state" where
  "gn_loop self v p method lamb_decay lamb_min 0 st = Inr st"
| "gn_loop self v p method lamb_decay lamb_min (Suc k) st =
     (case gn_body self v p method lamb_decay lamb_min st of
        Inl e \<Rightarrow> Inl e
      | Inr st' \<Rightarrow> gn_loop self v p method lamb_decay lamb_min k st')"

text \<open>
  \<^verbatim>\<open>gn\<close> with every argument given; \<open>None\<close> for \<^verbatim>\<open>x0\<close>, \<^verbatim>\<open>p\<close> or \<^verbatim>\<open>lamb\<close> is Python's
  \<^verbatim>\<open>None\<close>. \<open>gn_run\<close> returns the final state with its ghost fields, \<open>gn\<close> what
  the method returns.
\<close>

definition gn_run ::
  "jac_solver \<Rightarrow> vec \<Rightarrow> vec option \<Rightarrow> int \<Rightarrow> real option \<Rightarrow> real option \<Rightarrow> real \<Rightarrow> real
     \<Rightarrow> method_arg \<Rightarrow> error + gn_state" where
  "gn_run self v x0 maxiter p lamb lamb_decay lamb_min method =
     gn_loop self v
       (case p of None \<Rightarrow> par_p self | Some q \<Rightarrow> q)
       (if method = PyNone then par_method self else method)
       lamb_decay lamb_min (nat maxiter)
       \<lparr>cur_x0 = (case x0 of None \<Rightarrow> perm self | Some x \<Rightarrow> x),
        cur_lamb = (case lamb of None \<Rightarrow> par_lamb self | Some l \<Rightarrow> l),
        fwd_calls = 0,
        lambs_used = []\<rparr>"

definition gn ::
  "jac_solver \<Rightarrow> vec \<Rightarrow> vec option \<Rightarrow> int \<Rightarrow> real option \<Rightarrow> real option \<Rightarrow> real \<Rightarrow> real
     \<Rightarrow> method_arg \<Rightarrow> error + vec" where
  "gn self v x0 maxiter p lamb lamb_decay lamb_min method =
     (case gn_run self v x0 maxiter p lamb lamb_decay lamb_min method of
        Inl e \<Rightarrow> Inl e
      | Inr st \<Rightarrow> Inr (cur_x0 st))"

text \<open>
  The matrix \<^verbatim>\<open>h_mat = j_w_j + lamb*r_mat\<close> that a run of the loop body forms from
  the Jacobian of the forward model, and what it means that it is nonsingular:
  \<^verbatim>\<open>scipy.linalg.inv\<close> inverts it. For a square matrix this is the case when and
  only when the zero vector is the one solution of \<open>A x = 0\<close>
  (\<open>nonsingular_iff_trivial_kernel\<close> below).
\<close>

definition gn_h_mat :: "mat \<Rightarrow> real \<Rightarrow> real \<Rightarrow> method_arg \<Rightarrow> error + mat" where
  "gn_h_mat jac p lamb method =
     (case dot_mm (conjugate_m (transpose_m jac)) jac of
        Inl e \<Rightarrow> Inl e
      | Inr j_w_j \<Rightarrow>
          (case r_matrix jac j_w_j p method of
             Inl e \<Rightarrow> Inl e
           | Inr r_mat \<Rightarrow> Inr (add_m j_w_j (scale_m (of_real lamb) r_mat))))"

definition nonsingular :: "mat \<Rightarrow> bool" where
  "nonsingular A = (case la_inv A of Inl e \<Rightarrow> False | Inr B \<Rightarrow> True)"

text \<open>
  The estimate that one run of the loop body leaves when it starts from the estimate
  \<open>x\<close> and forms \<^verbatim>\<open>h_mat\<close> with the value \<open>lamb\<close>.
\<close>

definition gn_step_with ::
  "jac_solver \<Rightarrow> vec \<Rightarrow> real \<Rightarrow> method_arg \<Rightarrow> real \<Rightarrow> vec \<Rightarrow> error + vec" where
  "gn_step_with self v p method lamb x =
     (case fwd_solve self x of
        None \<Rightarrow> Inl ForwardModelError
      | Some fs \<Rightarrow>
     (case np_sub v (fs_v fs) of
        Inl e \<Rightarrow> Inl e
      | Inr r0 \<Rightarrow>
     (case dot_mv (conjugate_m (transpose_m (fs_jac fs))) r0 of
        Inl e \<Rightarrow> Inl e
      | Inr j_r \<Rightarrow>
     (case gn_h_mat (fs_jac fs) p lamb method of
        Inl e \<Rightarrow> Inl e
      | Inr h_mat \<Rightarrow>
     (case la_solve h_mat j_r of
        Inl e \<Rightarrow> Inl e
      | Inr d_k \<Rightarrow> np_sub x d_k)))))"

text \<open>
  A call of \<^verbatim>\<open>gn\<close> by keyword: \<open>None\<close> is an argument the caller leaves out, and the
  signature \<^verbatim>\<open>gn(self, v, x0=None, maxiter=1, p=None, lamb=None, lamb_decay=1.0,
  lamb_min=0, method='kotre', verbose=False)\<close> fills it in.
\<close>

record gn_kwargs =
  kw_x0 :: "vec option"
  kw_maxiter :: "int option"
  kw_p :: "real option"
  kw_lamb :: "real option"
  kw_lamb_decay :: "real option"
  kw_lamb_min :: "real option"
  kw_method :: "method_arg option"

definition no_kwargs :: gn_kwargs where
  "no_kwargs = \<lparr>kw_x0 = None, kw_maxiter = None, kw_p = None, kw_lamb = None,
                 kw_lamb_decay = None, kw_lamb_min = None, kw_method = None\<rparr>"

definition gn_call :: "jac_solver \<Rightarrow> vec \<Rightarrow> gn_kwargs \<Rightarrow> error + vec" where
  "gn_call self v kw =
     gn self v (kw_x0 kw)
       (case kw_maxiter kw of None \<Rightarrow> 1 | Some n \<Rightarrow> n)
       (kw_p kw) (kw_lamb kw)
       (case kw_lamb_decay kw of None \<Rightarrow> 1 | Some d \<Rightarrow> d)
       (case kw_lamb_min kw of None \<Rightarrow> 0 | Some m \<Rightarrow> m)
       (case kw_method kw of None \<Rightarrow> kotre | Some m \<Rightarrow> m)"

subsection \<open>\<^verbatim>\<open>sar\<close>\<close>

text \<open>
  \<^verbatim>\<open>np.argwhere(el2no == x)[:, 0]\<close>: the row index of every entry equal to \<open>x\<close>, row
  by row (a row with two such entries is listed twice). \<^verbatim>\<open>np.unique\<close>: the sorted
  list of the distinct values.
\<close>

definition argwhere_rows :: "int list list \<Rightarrow> int \<Rightarrow> nat list" where
  "argwhere_rows el2no x =
     concat (map (\<lambda>r. map (\<lambda>c. r) (filter (\<lambda>c. c = x) (el2no ! r))) [0..<length el2no])"

definition np_unique :: "nat list \<Rightarrow> nat list" where
  "np_unique xs = sorted_list_of_set (set xs)"

text \<open>
  \<^verbatim>\<open>idx = np.unique(np.hstack([i0, i1, i2]))\<close> for element \<open>i\<close>: the rows that hold
  one of the first three nodes of row \<open>i\<close>.
\<close>

definition sar_idx :: "int list list \<Rightarrow> nat \<Rightarrow> nat list" where
  "sar_idx el2no i =
     np_unique (argwhere_rows el2no (el2no ! i ! 0)
                @ argwhere_rows el2no (el2no ! i ! 1)
                @ argwhere_rows el2no (el2no ! i ! 2))"

text \<open>
  The body of the loop over \<open>i\<close>, on row \<open>i\<close> of \<^verbatim>\<open>d_mat\<close>. \<^verbatim>\<open>ei[2]\<close> raises
  \<^verbatim>\<open>IndexError\<close> on an array with fewer than three columns.
\<close>

definition sar_row :: "int list list \<Rightarrow> nat \<Rightarrow> real list \<Rightarrow> error + real list" where
  "sar_row el2no i row =
     (if length (el2no ! i) < 3 then Inl IndexError
      else Inr ((fold (\<lambda>j r. r[j := - 1]) (sar_idx el2no i) row)
                  [i := real (length (sar_idx el2no i)) - 1]))"

fun sar_loop :: "int list list \<Rightarrow> nat list \<Rightarrow> real list list \<Rightarrow> error + real list list" where
  "sar_loop el2no [] d_mat = Inr d_mat"
| "sar_loop el2no (i # is) d_mat =
     (case sar_row el2no i (d_mat ! i) of
        Inl e \<Rightarrow> Inl e
      | Inr row \<Rightarrow> sar_loop el2no is (d_mat[i := row]))"

definition sar :: "int list list \<Rightarrow> error + real list list" where
  "sar el2no = sar_loop el2no [0..<length el2no] (eye (length el2no))"

text \<open>Elements \<open>i\<close> and \<open>j\<close> share a node.\<close>

definition shares_node :: "int list list \<Rightarrow> nat \<Rightarrow> nat \<Rightarrow> bool" where
  "shares_node el2no i j = list_ex (\<lambda>a. a \<in> set (el2no ! j)) (el2no ! i)"

text \<open>The neighbours of element \<open>i\<close>: the other elements that share a node with it.\<close>

definition neighbours :: "int list list \<Rightarrow> nat \<Rightarrow> nat list" where
  "neighbours el2no i =
     filter (\<lambda>j. j \<noteq> i \<and> shares_node el2no i j) [0..<length el2no]"

text \<open>Row \<open>i\<close> of the matrix that claim C9 describes.\<close>

definition sar_row_of :: "int list list \<Rightarrow> nat \<Rightarrow> real list" where
  "sar_row_of el2no i =
     map (\<lambda>j. if j = i then real (length (neighbours el2no i))
              else if shares_node el2no i j then - 1 else 0) [0..<length el2no]"

subsection \<open>Solvers for the concrete runs\<close>

text \<open>
  A forward model with one measurement and one element: the voltage is minus the
  conductivity and the Jacobian is the 1x1 identity. \<open>demo_solver\<close> is a solver on
  it, configured with \<open>p = 0\<close>, \<open>lamb = 1\<close> and method \<^verbatim>\<open>'lm'\<close>.
\<close>

definition fwd_neg :: "vec \<Rightarrow> fwd_result option" where
  "fwd_neg x = Some \<lparr>fs_v = map uminus x, fs_jac = [[1]]\<rparr>"

definition demo_solver :: jac_solver where
  "demo_solver = \<lparr>J = [[1]], H = [[1 / 2]], par_p = 0, par_lamb = 1, par_method = lm,
                   perm = [0], fwd_solve = fwd_neg\<rparr>"

text \<open>
  A second forward model, with the Jacobian \<open>[[2]]\<close>, on which the methods kotre
  and lm give different matrices.
\<close>

definition fwd_two :: "vec \<Rightarrow> fwd_result option" where
  "fwd_two x = Some \<lparr>fs_v = map (\<lambda>a. - 2 * a) x, fs_jac = [[2]]\<rparr>"

definition demo_solver2 :: jac_solver where
  "demo_solver2 = \<lparr>J = [[2]], H = [[0]], par_p = 0, par_lamb = 0, par_method = kotre,
                    perm = [0], fwd_solve = fwd_two\<rparr>"

text \<open>
  An arithmetic for a concrete run: exact but for the division, whose quotient is
  too large by one part in \<open>2 ^ 52\<close>.
\<close>

definition div_up_ops :: float_ops where
  "div_up_ops = \<lparr>fl_dot = inner_u, fl_div = (\<lambda>x y. x / y * (1 + 1 / 2 ^ 52)),
                  fl_mul = (*), fl_sub = (-)\<rparr>"

section \<open>Properties\<close>

subsection \<open>Shapes\<close>

lemma length_diag_of: "length (diag_of A) = length A"
  by (simp add: diag_of_def)

lemma length_transpose_m: "length (transpose_m A) = ncols A"
  by (simp add: transpose_m_def)

lemma length_dot_mm: "dot_mm A B = Inr C \<Longrightarrow> length C = length A"
  by (auto simp: dot_mm_def split: if_splits)

subsection \<open>The exponent 0\<close>

lemma those_replicate_Some: "those (replicate n (Some x)) = Some (replicate n x)"
  by (induction n) simp_all

lemma power_v_zero: "power_v d 0 = Inr (replicate (length d) 1)"
  by (simp add: power_v_def np_power_def those_replicate_Some map_replicate_const)

lemma diag_m_ones: "diag_m (replicate n 1) = eye n"
  by (simp add: diag_m_def eye_def)

lemma r_matrix_kotre_zero:
  "length g = ncols jac \<Longrightarrow> r_matrix jac g 0 kotre = r_matrix jac g 0 lm"
  by (simp add: r_matrix_def is_kotre_def power_v_zero length_diag_of diag_m_ones)


subsection \<open>Runs on concrete arrays\<close>

lemmas eval_defs =
  h_matrix_def h_matrix_spec_def r_matrix_def is_kotre_def jac_setup_def
  solve_def difference_def dot_mm_def dot_mv_def dot_vv_def inner_u_def
  transpose_m_def conjugate_m_def ncols_def np_sub_def np_neg_def scale_v_def
  la_inv_def la_solve_def is_square_def eye_def add_m_def scale_m_def
  row_scale_def row_elim_def upt_rec

lemmas gn_eval =
  gn_run_def gn_def gn_body_def demo_solver_def fwd_neg_def eval_nat_numeral

text \<open>
  Claim C8. With \<open>J\<close> the 2x2 identity, \<open>p = 0\<close>, \<open>lamb = 1\<close> and method lm,
  \<^verbatim>\<open>h_matrix\<close> returns half the identity; \<^verbatim>\<open>setup\<close> stores it in \<open>H\<close>, and
  \<^verbatim>\<open>solve\<close> with \<open>v1 = [2, 0]\<close>, \<open>v0 = [0, 0]\<close> and no normalisation then returns
  \<open>[-1, 0]\<close>.
\<close>

theorem identity_jacobian_scenario:
  "h_matrix [[1, 0], [0, 1]] 0 1 lm = Inr [[1 / 2, 0], [0, 1 / 2]]
   \<and> (\<exists>s'. jac_setup (s\<lparr>J := [[1, 0], [0, 1]]\<rparr>) 0 1 lm = Inr s'
          \<and> H s' = [[1 / 2, 0], [0, 1 / 2]]
          \<and> solve s' [2, 0] [0, 0] False = Inr [- 1, 0])"
  by (simp add: eval_defs)

subsection \<open>The method dispatch\<close>

lemma r_matrix_not_kotre: "\<not> is_kotre m \<Longrightarrow> r_matrix jac g p m = r_matrix jac g p lm"
  by (simp add: r_matrix_def is_kotre_def)

lemma h_matrix_not_kotre: "\<not> is_kotre m \<Longrightarrow> h_matrix jac p lamb m = h_matrix jac p lamb lm"
  by (simp add: h_matrix_def r_matrix_not_kotre cong: sum.case_cong)

lemma gn_body_not_kotre:
  "\<not> is_kotre m \<Longrightarrow> gn_body self v p m ld lmin st = gn_body self v p lm ld lmin st"
  by (simp add: gn_body_def r_matrix_not_kotre cong: option.case_cong sum.case_cong)

lemma gn_loop_not_kotre:
  "\<not> is_kotre m \<Longrightarrow> gn_loop self v p m ld lmin k st = gn_loop self v p lm ld lmin k st"
  by (induction k arbitrary: st) (simp_all add: gn_body_not_kotre cong: sum.case_cong)

text \<open>No operation of the module raises a \<open>ConfigurationError\<close>.\<close>

lemma dot_mm_no_config: "dot_mm A B \<noteq> Inl ConfigurationError"
  by (simp add: dot_mm_def)

lemma dot_mv_no_config: "dot_mv A x \<noteq> Inl ConfigurationError"
  by (simp add: dot_mv_def)

lemma np_sub_no_config: "np_sub x y \<noteq> Inl ConfigurationError"
  by (simp add: np_sub_def)

lemma r_matrix_no_config: "r_matrix jac g p m \<noteq> Inl ConfigurationError"
  by (simp add: r_matrix_def power_v_def split: option.splits)

lemma la_inv_no_config: "la_inv A \<noteq> Inl ConfigurationError"
  by (simp add: la_inv_def split: option.splits)

lemma la_solve_no_config: "la_solve A b \<noteq> Inl ConfigurationError"
  by (simp add: la_solve_def split: option.splits)

lemma h_matrix_no_config: "h_matrix jac p lamb m \<noteq> Inl ConfigurationError"
  using dot_mm_no_config r_matrix_no_config la_inv_no_config
  by (auto simp: h_matrix_def split: sum.splits)

lemma gn_body_no_config: "gn_body self v p m ld lmin st \<noteq> Inl ConfigurationError"
  using dot_mm_no_config dot_mv_no_config np_sub_no_config r_matrix_no_config la_solve_no_config
  by (auto simp: gn_body_def split: option.splits sum.splits)

lemma gn_loop_no_config: "gn_loop self v p m ld lmin k st \<noteq> Inl ConfigurationError"
  using gn_body_no_config by (induction k arbitrary: st) (auto split: sum.splits)

text \<open>
  Claim C2 says that a method outside \<open>{kotre, lm}\<close> makes \<^verbatim>\<open>h_matrix\<close> and \<^verbatim>\<open>gn\<close>
  fail with a \<open>ConfigurationError\<close>. The code has no such check: with the method
  \<^verbatim>\<open>'tikhonov'\<close> both return a result.
\<close>

theorem unknown_method_counterexample:
  "h_matrix [[1]] 0 1 (PyStr True ''tikhonov'') = Inr [[1 / 2]]
   \<and> gn demo_solver [- 2] None 1 None None 1 0 (PyStr True ''tikhonov'') = Inr [1]"
  by (simp add: gn_eval eval_defs)

text \<open>
  Claim C2, amended. Every method other than the string \<^verbatim>\<open>'kotre'\<close>, so every value
  outside \<open>{kotre, lm}\<close> as well, takes the \<^verbatim>\<open>else\<close> branch: \<^verbatim>\<open>h_matrix\<close> computes
  what it computes for \<^verbatim>\<open>'lm'\<close>, and so does \<^verbatim>\<open>gn\<close> (for a method other than
  \<^verbatim>\<open>None\<close>, which stands for the configured one). Neither ever raises a
  \<open>ConfigurationError\<close>, whatever the method.
\<close>

theorem unknown_method_runs_as_lm:
  "(m \<noteq> PyStr True ''kotre'' \<and> m \<noteq> PyStr False ''kotre'' \<longrightarrow>
      h_matrix jac p lamb m = h_matrix jac p lamb lm)
   \<and> (m \<noteq> PyStr True ''kotre'' \<and> m \<noteq> PyStr False ''kotre'' \<and> m \<noteq> PyNone \<longrightarrow>
        gn self v x0 maxiter q l ld lmin m = gn self v x0 maxiter q l ld lmin lm)
   \<and> h_matrix jac p lamb m \<noteq> Inl ConfigurationError
   \<and> gn self v x0 maxiter q l ld lmin m \<noteq> Inl ConfigurationError"
proof -
  have "gn self v x0 maxiter q l ld lmin m \<noteq> Inl ConfigurationError"
    using gn_loop_no_config by (auto simp: gn_def gn_run_def split: sum.splits)
  moreover have "gn self v x0 maxiter q l ld lmin m = gn self v x0 maxiter q l ld lmin lm"
    if "\<not> is_kotre m" "m \<noteq> PyNone"
    using that by (simp add: gn_def gn_run_def gn_loop_not_kotre)
  moreover have "\<not> is_kotre m" if "m \<noteq> PyStr True ''kotre''"
    using that by (simp add: is_kotre_def)
  ultimately show ?thesis
    by (simp add: h_matrix_not_kotre h_matrix_no_config)
qed

theorem unknown_method_witness:
  "PyStr True ''tikhonov'' \<noteq> PyStr True ''kotre''
   \<and> PyStr True ''tikhonov'' \<noteq> PyStr False ''kotre''
   \<and> PyStr True ''tikhonov'' \<noteq> PyNone
   \<and> h_matrix [[1]] 0 1 (PyStr True ''tikhonov'') = h_matrix [[1]] 0 1 lm
   \<and> h_matrix [[1]] 0 1 lm = Inr [[1 / 2]]
   \<and> gn demo_solver [- 2] None 1 None None 1 0 (PyStr True ''tikhonov'')
       = gn demo_solver [- 2] None 1 None None 1 0 lm
   \<and> gn demo_solver [- 2] None 1 None None 1 0 lm = Inr [1]"
  using unknown_method_runs_as_lm
    [of "PyStr True ''tikhonov''" "[[1]]" 0 1 demo_solver "[- 2]" None 1 None None 1 0]
  by (simp add: gn_eval eval_defs)

subsection \<open>The loop of \<^verbatim>\<open>gn\<close>\<close>

lemma gn_body_effect:
  "gn_body self v p m ld lmin st = Inr st' \<Longrightarrow>
     fwd_calls st' = Suc (fwd_calls st)
     \<and> lambs_used st' = lambs_used st @ [cur_lamb st]
     \<and> cur_lamb st' = (if cur_lamb st > lmin then cur_lamb st * ld else cur_lamb st)"
  by (auto simp: gn_body_def split: option.splits sum.splits)

lemma gn_loop_Suc_Inr:
  "gn_loop self v p m ld lmin (Suc k) st = Inr st' \<Longrightarrow>
     \<exists>st1. gn_body self v p m ld lmin st = Inr st1 \<and> gn_loop self v p m ld lmin k st1 = Inr st'"
  by (auto split: sum.splits)

lemma gn_loop_counts:
  "gn_loop self v p m ld lmin k st = Inr st' \<Longrightarrow>
     fwd_calls st' = fwd_calls st + k \<and> length (lambs_used st') = length (lambs_used st) + k"
proof (induction k arbitrary: st)
  case 0
  then show ?case by simp
next
  case (Suc k)
  from gn_loop_Suc_Inr [OF Suc.prems] obtain st1 where
    b: "gn_body self v p m ld lmin st = Inr st1" and l: "gn_loop self v p m ld lmin k st1 = Inr st'"
    by blast
  from gn_body_effect [OF b] Suc.IH [OF l] show ?case by simp
qed

lemma lamb_sequence:
  assumes "gn_run self v x0 3 p (Some 1) (1 / 2) (1 / 10) m = Inr st"
  shows "lambs_used st = [1, 1 / 2, 1 / 4]"
proof -
  let ?p = "case p of None \<Rightarrow> par_p self | Some q \<Rightarrow> q"
  let ?m = "if m = PyNone then par_method self else m"
  let ?st0 = "\<lparr>cur_x0 = (case x0 of None \<Rightarrow> perm self | Some x \<Rightarrow> x), cur_lamb = 1,
              fwd_calls = 0, lambs_used = []\<rparr>"
  have n3: "nat 3 = Suc (Suc (Suc 0))" by simp
  have l3: "gn_loop self v ?p ?m (1 / 2) (1 / 10) (Suc (Suc (Suc 0))) ?st0 = Inr st"
    using assms unfolding gn_run_def n3 option.case .
  from gn_loop_Suc_Inr [OF l3] obtain st1 where
    b1: "gn_body self v ?p ?m (1 / 2) (1 / 10) ?st0 = Inr st1"
    and l2: "gn_loop self v ?p ?m (1 / 2) (1 / 10) (Suc (Suc 0)) st1 = Inr st" by blast
  from gn_loop_Suc_Inr [OF l2] obtain st2 where
    b2: "gn_body self v ?p ?m (1 / 2) (1 / 10) st1 = Inr st2"
    and l1: "gn_loop self v ?p ?m (1 / 2) (1 / 10) (Suc 0) st2 = Inr st" by blast
  from gn_loop_Suc_Inr [OF l1] obtain st3 where
    b3: "gn_body self v ?p ?m (1 / 2) (1 / 10) st2 = Inr st3"
    and l0: "gn_loop self v ?p ?m (1 / 2) (1 / 10) 0 st3 = Inr st" by blast
  from l0 have e: "st3 = st" by simp
  from gn_body_effect [OF b1] have s1: "lambs_used st1 = [1]" "cur_lamb st1 = 1 / 2" by simp_all
  from gn_body_effect [OF b2] s1 have s2: "lambs_used st2 = [1, 1 / 2]" "cur_lamb st2 = 1 / 4"
    by simp_all
  from gn_body_effect [OF b3] s2 have "lambs_used st3 = [1, 1 / 2, 1 / 4]" by simp
  with e show ?thesis by simp
qed

lemma gn_body_via_h_mat:
  "gn_body self v p method lamb_decay lamb_min st =
     (case fwd_solve self (cur_x0 st) of
        None \<Rightarrow> Inl ForwardModelError
      | Some fs \<Rightarrow>
     (case np_sub v (fs_v fs) of
        Inl e \<Rightarrow> Inl e
      | Inr r0 \<Rightarrow>
     (case dot_mv (conjugate_m (transpose_m (fs_jac fs))) r0 of
        Inl e \<Rightarrow> Inl e
      | Inr j_r \<Rightarrow>
     (case gn_h_mat (fs_jac fs) p (cur_lamb st) method of
        Inl e \<Rightarrow> Inl e
      | Inr h_mat \<Rightarrow>
     (case la_solve h_mat j_r of
        Inl e \<Rightarrow> Inl e
      | Inr d_k \<Rightarrow>
     (case np_sub (cur_x0 st) d_k of
        Inl e \<Rightarrow> Inl e
      | Inr x1 \<Rightarrow>
          Inr \<lparr>cur_x0 = x1,
               cur_lamb = (if cur_lamb st > lamb_min then cur_lamb st * lamb_decay
                           else cur_lamb st),
               fwd_calls = Suc (fwd_calls st),
               lambs_used = lambs_used st @ [cur_lamb st]\<rparr>))))))"
  by (simp add: gn_body_def gn_h_mat_def split: option.splits sum.splits)

lemma gn_body_forms_h_mat:
  assumes "gn_body self v q m ld lmin s = Inr s'"
  shows "\<exists>fs r0 j_r h d.
           fwd_solve self (cur_x0 s) = Some fs
           \<and> np_sub v (fs_v fs) = Inr r0
           \<and> dot_mv (conjugate_m (transpose_m (fs_jac fs))) r0 = Inr j_r
           \<and> gn_h_mat (fs_jac fs) q (cur_lamb s) m = Inr h
           \<and> la_solve h j_r = Inr d
           \<and> np_sub (cur_x0 s) d = Inr (cur_x0 s')"
  using assms unfolding gn_body_via_h_mat
  by (auto split: option.splits sum.splits)

lemma gn_body_step_with:
  assumes "gn_body self v q m ld lmin s = Inr s'"
  shows "gn_step_with self v q m (cur_lamb s) (cur_x0 s) = Inr (cur_x0 s')"
  using gn_body_forms_h_mat [OF assms] by (auto simp: gn_step_with_def)

lemma lamb_steps:
  assumes "gn_run self v x0 3 p (Some 1) (1 / 2) (1 / 10) m = Inr st"
    and "xe = (case x0 of None \<Rightarrow> perm self | Some x \<Rightarrow> x)"
    and "pe = (case p of None \<Rightarrow> par_p self | Some q \<Rightarrow> q)"
    and "me = (if m = PyNone then par_method self else m)"
  shows "\<exists>x1 x2. gn_step_with self v pe me 1 xe = Inr x1
           \<and> gn_step_with self v pe me (1 / 2) x1 = Inr x2
           \<and> gn_step_with self v pe me (1 / 4) x2 = Inr (cur_x0 st)"
proof -
  let ?st0 = "\<lparr>cur_x0 = xe, cur_lamb = 1, fwd_calls = 0, lambs_used = []\<rparr>"
  have n3: "nat 3 = Suc (Suc (Suc 0))" by simp
  have l3: "gn_loop self v pe me (1 / 2) (1 / 10) (Suc (Suc (Suc 0))) ?st0 = Inr st"
    using assms(1) unfolding gn_run_def n3 option.case assms(2-4) .
  from gn_loop_Suc_Inr [OF l3] obtain st1 where
    b1: "gn_body self v pe me (1 / 2) (1 / 10) ?st0 = Inr st1"
    and l2: "gn_loop self v pe me (1 / 2) (1 / 10) (Suc (Suc 0)) st1 = Inr st" by blast
  from gn_loop_Suc_Inr [OF l2] obtain st2 where
    b2: "gn_body self v pe me (1 / 2) (1 / 10) st1 = Inr st2"
    and l1: "gn_loop self v pe me (1 / 2) (1 / 10) (Suc 0) st2 = Inr st" by blast
  from gn_loop_Suc_Inr [OF l1] obtain st3 where
    b3: "gn_body self v pe me (1 / 2) (1 / 10) st2 = Inr st3"
    and l0: "gn_loop self v pe me (1 / 2) (1 / 10) 0 st3 = Inr st" by blast
  from l0 have e: "st3 = st" by simp
  from gn_body_effect [OF b1] have s1: "cur_lamb st1 = 1 / 2" by simp
  from gn_body_effect [OF b2] s1 have s2: "cur_lamb st2 = 1 / 4" by simp
  from gn_body_step_with [OF b1] have "gn_step_with self v pe me 1 xe = Inr (cur_x0 st1)" by simp
  moreover from gn_body_step_with [OF b2] s1
  have "gn_step_with self v pe me (1 / 2) (cur_x0 st1) = Inr (cur_x0 st2)" by simp
  moreover from gn_body_step_with [OF b3] s2 e
  have "gn_step_with self v pe me (1 / 4) (cur_x0 st2) = Inr (cur_x0 st)" by simp
  ultimately show ?thesis by blast
qed

text \<open>
  Claim C4. A call of \<^verbatim>\<open>gn\<close> with \<open>maxiter = 3\<close>, \<open>lamb = 1\<close>, \<open>lamb_decay = 1/2\<close>
  and \<open>lamb_min = 1/10\<close> that returns has formed its three matrices \<^verbatim>\<open>h_mat\<close> with
  \<open>lamb = 1, 1/2, 1/4\<close>, in this order: its result is the estimate after a step
  with \<open>lamb = 1\<close> from the initial estimate, a step with \<open>lamb = 1/2\<close> from there and a
  step with \<open>lamb = 1/4\<close> from there. Every run of the loop body forms the matrix
  \<^verbatim>\<open>h_mat\<close> that it gives to \<^verbatim>\<open>la.solve\<close> with the value of \<^verbatim>\<open>lamb\<close> it starts
  with, and leaves \<^verbatim>\<open>lamb\<close> multiplied by \<^verbatim>\<open>lamb_decay\<close> for the next run when it
  is above \<^verbatim>\<open>lamb_min\<close>, unchanged otherwise.
\<close>

theorem gn_lamb_decay_sequence:
  "(gn_run self v x0 3 p (Some 1) (1 / 2) (1 / 10) m = Inr st \<longrightarrow>
      lambs_used st = [1, 1 / 2, 1 / 4]
      \<and> (\<exists>x1 x2.
            gn_step_with self v (case p of None \<Rightarrow> par_p self | Some q \<Rightarrow> q)
              (if m = PyNone then par_method self else m) 1
              (case x0 of None \<Rightarrow> perm self | Some x \<Rightarrow> x) = Inr x1
            \<and> gn_step_with self v (case p of None \<Rightarrow> par_p self | Some q \<Rightarrow> q)
                (if m = PyNone then par_method self else m) (1 / 2) x1 = Inr x2
            \<and> gn_step_with self v (case p of None \<Rightarrow> par_p self | Some q \<Rightarrow> q)
                (if m = PyNone then par_method self else m) (1 / 4) x2 = Inr (cur_x0 st)))
   \<and> (gn_body self v q m' ld lmin s = Inr s' \<longrightarrow>
        (\<exists>fs r0 j_r h d.
           fwd_solve self (cur_x0 s) = Some fs
           \<and> np_sub v (fs_v fs) = Inr r0
           \<and> dot_mv (conjugate_m (transpose_m (fs_jac fs))) r0 = Inr j_r
           \<and> gn_h_mat (fs_jac fs) q (cur_lamb s) m' = Inr h
           \<and> la_solve h j_r = Inr d
           \<and> np_sub (cur_x0 s) d = Inr (cur_x0 s'))
        \<and> lambs_used s' = lambs_used s @ [cur_lamb s]
        \<and> cur_lamb s' = (if cur_lamb s > lmin then cur_lamb s * ld else cur_lamb s))"
proof (intro conjI impI)
  assume r: "gn_run self v x0 3 p (Some 1) (1 / 2) (1 / 10) m = Inr st"
  from lamb_sequence [OF r] show "lambs_used st = [1, 1 / 2, 1 / 4]" .
  from lamb_steps [OF r refl refl refl]
  show "\<exists>x1 x2.
            gn_step_with self v (case p of None \<Rightarrow> par_p self | Some q \<Rightarrow> q)
              (if m = PyNone then par_method self else m) 1
              (case x0 of None \<Rightarrow> perm self | Some x \<Rightarrow> x) = Inr x1
            \<and> gn_step_with self v (case p of None \<Rightarrow> par_p self | Some q \<Rightarrow> q)
                (if m = PyNone then par_method self else m) (1 / 2) x1 = Inr x2
            \<and> gn_step_with self v (case p of None \<Rightarrow> par_p self | Some q \<Rightarrow> q)
                (if m = PyNone then par_method self else m) (1 / 4) x2 = Inr (cur_x0 st)" .
next
  assume b: "gn_body self v q m' ld lmin s = Inr s'"
  from gn_body_forms_h_mat [OF b]
  show "\<exists>fs r0 j_r h d.
           fwd_solve self (cur_x0 s) = Some fs
           \<and> np_sub v (fs_v fs) = Inr r0
           \<and> dot_mv (conjugate_m (transpose_m (fs_jac fs))) r0 = Inr j_r
           \<and> gn_h_mat (fs_jac fs) q (cur_lamb s) m' = Inr h
           \<and> la_solve h j_r = Inr d
           \<and> np_sub (cur_x0 s) d = Inr (cur_x0 s')" .
  from gn_body_effect [OF b] show "lambs_used s' = lambs_used s @ [cur_lamb s]" by simp
  from gn_body_effect [OF b]
  show "cur_lamb s' = (if cur_lamb s > lmin then cur_lamb s * ld else cur_lamb s)" by simp
qed

lemmas step_eval = gn_step_with_def gn_h_mat_def demo_solver_def fwd_neg_def

theorem gn_lamb_decay_witness:
  "gn_run demo_solver [- 2] None 3 None (Some 1) (1 / 2) (1 / 10) lm
     = Inr \<lparr>cur_x0 = [29 / 15], cur_lamb = 1 / 8, fwd_calls = 3,
            lambs_used = [1, 1 / 2, 1 / 4]\<rparr>
   \<and> gn_step_with demo_solver [- 2] 0 lm 1 [0] = Inr [1]
   \<and> gn_step_with demo_solver [- 2] 0 lm (1 / 2) [1] = Inr [5 / 3]
   \<and> gn_step_with demo_solver [- 2] 0 lm (1 / 4) [5 / 3] = Inr [29 / 15]
   \<and> gn_h_mat [[1]] 0 1 lm = Inr [[2]]
   \<and> gn_h_mat [[1]] 0 (1 / 2) lm = Inr [[3 / 2]]
   \<and> gn_h_mat [[1]] 0 (1 / 4) lm = Inr [[5 / 4]]
   \<and> gn_body demo_solver [- 2] 0 lm (1 / 2) (1 / 10)
        \<lparr>cur_x0 = [0], cur_lamb = 1 / 16, fwd_calls = 0, lambs_used = []\<rparr>
     = Inr \<lparr>cur_x0 = [32 / 17], cur_lamb = 1 / 16, fwd_calls = 1, lambs_used = [1 / 16]\<rparr>
   \<and> gn_h_mat [[1]] 0 (1 / 16) lm = Inr [[17 / 16]]
   \<and> la_solve [[17 / 16]] [- 2] = Inr [- (32 / 17)]"
proof -
  have run: "gn_run demo_solver [- 2] None 3 None (Some 1) (1 / 2) (1 / 10) lm
     = Inr \<lparr>cur_x0 = [29 / 15], cur_lamb = 1 / 8, fwd_calls = 3,
            lambs_used = [1, 1 / 2, 1 / 4]\<rparr>"
    by (simp add: gn_eval eval_defs)
  have body: "gn_body demo_solver [- 2] 0 lm (1 / 2) (1 / 10)
        \<lparr>cur_x0 = [0], cur_lamb = 1 / 16, fwd_calls = 0, lambs_used = []\<rparr>
     = Inr \<lparr>cur_x0 = [32 / 17], cur_lamb = 1 / 16, fwd_calls = 1, lambs_used = [1 / 16]\<rparr>"
    by (simp add: gn_eval eval_defs)
  have steps: "gn_step_with demo_solver [- 2] 0 lm 1 [0] = Inr [1]"
    "gn_step_with demo_solver [- 2] 0 lm (1 / 2) [1] = Inr [5 / 3]"
    "gn_step_with demo_solver [- 2] 0 lm (1 / 4) [5 / 3] = Inr [29 / 15]"
    by (simp_all add: step_eval eval_defs)
  have hm: "gn_h_mat [[1]] 0 1 lm = Inr [[2]]" "gn_h_mat [[1]] 0 (1 / 2) lm = Inr [[3 / 2]]"
    "gn_h_mat [[1]] 0 (1 / 4) lm = Inr [[5 / 4]]" "gn_h_mat [[1]] 0 (1 / 16) lm = Inr [[17 / 16]]"
    by (simp_all add: gn_h_mat_def eval_defs)
  have sv: "la_solve [[17 / 16]] [- 2] = Inr [- (32 / 17)]" by (simp add: eval_defs)
  note t = gn_lamb_decay_sequence
    [of demo_solver "[- 2]" None None lm
        "\<lparr>cur_x0 = [29 / 15], cur_lamb = 1 / 8, fwd_calls = 3, lambs_used = [1, 1 / 2, 1 / 4]\<rparr>"
        0 lm "1 / 2" "1 / 10"
        "\<lparr>cur_x0 = [0], cur_lamb = 1 / 16, fwd_calls = 0, lambs_used = []\<rparr>"
        "\<lparr>cur_x0 = [32 / 17], cur_lamb = 1 / 16, fwd_calls = 1, lambs_used = [1 / 16]\<rparr>"]
  from t run body steps hm sv show ?thesis by simp
qed

text \<open>
  Claim C3 says that the loop body runs at least once for every \<open>maxiter\<close>, 0
  included. \<^verbatim>\<open>range(0)\<close> is empty: with \<open>maxiter = 0\<close> the forward model is not
  called at all.
\<close>

theorem gn_zero_iterations_counterexample:
  "gn_run demo_solver [- 2] None 0 None None 1 0 kotre
     = Inr \<lparr>cur_x0 = [0], cur_lamb = 1, fwd_calls = 0, lambs_used = []\<rparr>
   \<and> \<not> 1 \<le> fwd_calls \<lparr>cur_x0 = [0], cur_lamb = 1, fwd_calls = 0, lambs_used = []\<rparr>"
  by (simp add: gn_eval)

text \<open>
  Claim C3, amended. A call of \<^verbatim>\<open>gn\<close> that returns has run the loop body, and
  called the forward model, exactly \<open>maxiter\<close> times when \<open>maxiter \<ge> 1\<close>, whatever the
  residuals were, and not at all when \<open>maxiter \<le> 0\<close>; in the latter case it returns
  the initial estimate.
\<close>

theorem gn_iteration_count:
  "(gn_run self v x0 maxiter p lamb ld lmin m = Inr st \<longrightarrow>
      fwd_calls st = nat maxiter \<and> length (lambs_used st) = nat maxiter)
   \<and> (maxiter \<le> 0 \<longrightarrow>
        gn self v x0 maxiter p lamb ld lmin m
          = Inr (case x0 of None \<Rightarrow> perm self | Some x \<Rightarrow> x))"
proof -
  have "fwd_calls st = nat maxiter \<and> length (lambs_used st) = nat maxiter"
    if "gn_run self v x0 maxiter p lamb ld lmin m = Inr st"
    using gn_loop_counts [OF that [unfolded gn_run_def]] by simp
  moreover have "gn self v x0 maxiter p lamb ld lmin m
          = Inr (case x0 of None \<Rightarrow> perm self | Some x \<Rightarrow> x)" if "maxiter \<le> 0"
    using that by (simp add: gn_def gn_run_def)
  ultimately show ?thesis by blast
qed

theorem gn_iteration_count_witness:
  "gn_run demo_solver [- 2] None 2 None None 1 0 lm
     = Inr \<lparr>cur_x0 = [3 / 2], cur_lamb = 1, fwd_calls = 2, lambs_used = [1, 1]\<rparr>
   \<and> fwd_calls \<lparr>cur_x0 = [3 / 2], cur_lamb = 1, fwd_calls = 2, lambs_used = [1, 1]\<rparr> = nat 2
   \<and> (0::int) \<le> 0
   \<and> gn demo_solver [- 2] None 0 None None 1 0 lm = Inr [0]"
  using gn_iteration_count
    [of demo_solver "[- 2]" None 2 None None 1 0 lm
        "\<lparr>cur_x0 = [3 / 2], cur_lamb = 1, fwd_calls = 2, lambs_used = [1, 1]\<rparr>"]
    gn_iteration_count [of demo_solver "[- 2]" None 0 None None 1 0 lm]
  by (simp add: gn_eval eval_defs)

subsection \<open>The default of \<^verbatim>\<open>method\<close> in \<^verbatim>\<open>gn\<close>\<close>

lemma np_power_one: "np_power z 1 = Some z"
  by (simp add: np_power_def rcis_cmod_Arg)

lemma gn_body_par_method:
  "gn_body (self\<lparr>par_method := m0\<rparr>) v p m ld lmin st = gn_body self v p m ld lmin st"
  by (simp add: gn_body_def)

lemma gn_loop_par_method:
  "gn_loop (self\<lparr>par_method := m0\<rparr>) v p m ld lmin k st = gn_loop self v p m ld lmin k st"
  by (induction k arbitrary: st) (simp_all add: gn_body_par_method cong: sum.case_cong)

lemma jac_setup_params:
  "jac_setup s0 p lamb m = Inr s1 \<Longrightarrow> par_method s1 = m \<and> par_p s1 = p \<and> par_lamb s1 = lamb"
  by (auto simp: jac_setup_def split: sum.splits)

text \<open>
  Claim C10. A call of \<^verbatim>\<open>gn\<close> without a \<^verbatim>\<open>method\<close> argument is the call with
  \<^verbatim>\<open>method='kotre'\<close>, whatever method the solver was configured with; the configured
  method is read when the caller passes \<^verbatim>\<open>method=None\<close>, and only then. So after
  \<^verbatim>\<open>setup(p, lamb, method='lm')\<close>, \<^verbatim>\<open>gn(v)\<close> is the kotre run and
  \<^verbatim>\<open>gn(v, method=None)\<close> the lm run. The witness is a solver on which the two
  differ.
\<close>

theorem gn_default_method_is_kotre:
  "gn_call self v (kw\<lparr>kw_method := None\<rparr>) = gn_call self v (kw\<lparr>kw_method := Some kotre\<rparr>)
   \<and> gn_call (self\<lparr>par_method := m\<rparr>) v (kw\<lparr>kw_method := None\<rparr>)
       = gn_call self v (kw\<lparr>kw_method := None\<rparr>)
   \<and> gn_call self v (kw\<lparr>kw_method := Some PyNone\<rparr>)
       = gn_call self v (kw\<lparr>kw_method := Some (par_method self)\<rparr>)
   \<and> (jac_setup s0 p lamb lm = Inr s1 \<longrightarrow>
        par_method s1 = lm
        \<and> gn_call s1 v no_kwargs = gn s1 v None 1 None None 1 0 kotre
        \<and> gn_call s1 v (no_kwargs\<lparr>kw_method := Some PyNone\<rparr>) = gn s1 v None 1 None None 1 0 lm)"
proof -
  have a: "gn_call self v (kw\<lparr>kw_method := None\<rparr>) = gn_call self v (kw\<lparr>kw_method := Some kotre\<rparr>)"
    by (simp add: gn_call_def)
  have b: "gn_call (self\<lparr>par_method := m\<rparr>) v (kw\<lparr>kw_method := None\<rparr>)
       = gn_call self v (kw\<lparr>kw_method := None\<rparr>)"
    by (simp add: gn_call_def gn_def gn_run_def gn_loop_par_method cong: option.case_cong)
  have c: "gn_call self v (kw\<lparr>kw_method := Some PyNone\<rparr>)
       = gn_call self v (kw\<lparr>kw_method := Some (par_method self)\<rparr>)"
    by (simp add: gn_call_def gn_def gn_run_def)
  have d: "par_method s1 = lm
        \<and> gn_call s1 v no_kwargs = gn s1 v None 1 None None 1 0 kotre
        \<and> gn_call s1 v (no_kwargs\<lparr>kw_method := Some PyNone\<rparr>) = gn s1 v None 1 None None 1 0 lm"
    if "jac_setup s0 p lamb lm = Inr s1"
    using jac_setup_params [OF that]
    by (simp add: gn_call_def no_kwargs_def gn_def gn_run_def)
  from a b c d show ?thesis by blast
qed

theorem gn_default_method_witness:
  "jac_setup demo_solver2 1 1 lm
     = Inr (demo_solver2\<lparr>H := [[2 / 5]], par_p := 1, par_lamb := 1, par_method := lm\<rparr>)
   \<and> gn_call (demo_solver2\<lparr>H := [[2 / 5]], par_p := 1, par_lamb := 1, par_method := lm\<rparr>)
        [- 2] no_kwargs = Inr [1 / 2]
   \<and> gn (demo_solver2\<lparr>H := [[2 / 5]], par_p := 1, par_lamb := 1, par_method := lm\<rparr>)
        [- 2] None 1 None None 1 0 kotre = Inr [1 / 2]
   \<and> gn_call (demo_solver2\<lparr>H := [[2 / 5]], par_p := 1, par_lamb := 1, par_method := lm\<rparr>)
        [- 2] (no_kwargs\<lparr>kw_method := Some PyNone\<rparr>) = Inr [4 / 5]"
  using gn_default_method_is_kotre
    [of "demo_solver2\<lparr>H := [[2 / 5]], par_p := 1, par_lamb := 1, par_method := lm\<rparr>"
        "[- 2]" no_kwargs lm demo_solver2 1 1
        "demo_solver2\<lparr>H := [[2 / 5]], par_p := 1, par_lamb := 1, par_method := lm\<rparr>"]
  by (simp add: gn_call_def no_kwargs_def gn_run_def gn_def gn_body_def demo_solver2_def
      fwd_two_def eval_nat_numeral eval_defs power_v_def np_power_one diag_m_def diag_of_def)

subsection \<open>The transpose in \<^verbatim>\<open>h_matrix\<close>\<close>

text \<open>
  Claim C1 says that \<^verbatim>\<open>h_matrix\<close> builds \<open>G\<close> and \<open>H\<close> with the conjugate transpose
  of \<open>J\<close>, also for a complex \<open>J\<close>. \<^verbatim>\<open>h_matrix\<close> calls \<^verbatim>\<open>jac.transpose()\<close>, which
  does not conjugate (\<^verbatim>\<open>gn\<close> and \<^verbatim>\<open>bp_solve\<close> call \<^verbatim>\<open>jac.T.conjugate()\<close>). On the
  1x1 Jacobian \<open>[[i]]\<close> with \<open>lamb = 2\<close> and method lm the code computes
  \<open>G = i * i = -1\<close> and returns \<open>[[i]]\<close>; the claimed formula has \<open>G = 1\<close> and gives
  \<open>[[-i/3]]\<close>.
\<close>

theorem h_matrix_complex_jacobian:
  "h_matrix [[\<i>]] 0 2 lm = Inr [[\<i>]] \<and> h_matrix_spec [[\<i>]] 0 2 Lm = Inr [[- \<i> / 3]]"
  by (simp add: eval_defs)

lemma cnj_real_entry: "Im z = 0 \<Longrightarrow> cnj z = z"
  by (simp add: complex_eq_iff)

lemma conjugate_transpose_real:
  assumes "real_matrix jac"
  shows "conjugate_m (transpose_m jac) = transpose_m jac"
proof -
  have "cnj (r ! j) = r ! j" if "r \<in> set jac" "j < ncols jac" for r j
  proof -
    from assms that have "length r = ncols jac" "list_all (\<lambda>z. Im z = 0) r"
      by (simp_all add: real_matrix_def list_all_iff)
    with that have "Im (r ! j) = 0" by (simp add: list_all_length)
    then show ?thesis by (rule cnj_real_entry)
  qed
  then show ?thesis by (simp add: conjugate_m_def transpose_m_def)
qed

text \<open>
  On a real Jacobian the two transposes are the same, and \<^verbatim>\<open>h_matrix\<close> computes
  the claimed formula, for both methods.
\<close>

theorem h_matrix_real_jacobian:
  "real_matrix jac \<Longrightarrow>
     h_matrix jac p lamb kotre = h_matrix_spec jac p lamb Kotre
     \<and> h_matrix jac p lamb lm = h_matrix_spec jac p lamb Lm"
  by (simp add: h_matrix_def h_matrix_spec_def conjugate_transpose_real r_matrix_def is_kotre_def
      cong: sum.case_cong)

theorem h_matrix_real_jacobian_witness:
  "real_matrix [[1, 0], [0, 1]]
   \<and> h_matrix [[1, 0], [0, 1]] 0 1 lm = h_matrix_spec [[1, 0], [0, 1]] 0 1 Lm
   \<and> h_matrix_spec [[1, 0], [0, 1]] 0 1 Lm = Inr [[1 / 2, 0], [0, 1 / 2]]"
  using h_matrix_real_jacobian [of "[[1, 0], [0, 1]]" 0 1]
  by (simp add: real_matrix_def eval_defs)

subsection \<open>\<^verbatim>\<open>solve_gs\<close> on a scaled frame\<close>

lemma inner_u_Nil [simp]: "inner_u [] y = 0" "inner_u x [] = 0"
  by (simp_all add: inner_u_def)

lemma inner_u_Cons [simp]: "inner_u (a # x) (b # y) = a * b + inner_u x y"
  by (simp add: inner_u_def)

lemma inner_u_scale: "inner_u (scale_v c x) y = c * inner_u x y"
  by (induction x arbitrary: y) (case_tac [2] y, simp_all add: scale_v_def algebra_simps)

lemma inner_u_zeros: "inner_u r (replicate n 0) = 0"
  by (induction r arbitrary: n) (case_tac [2] n, simp_all)

lemma inner_u_real:
  "list_all (\<lambda>z. Im z = 0) v \<Longrightarrow> inner_u v v = of_real (sum_list (map (\<lambda>z. (Re z)\<^sup>2) v))"
  by (induction v) (simp_all add: complex_eq_iff power2_eq_square)

lemma sum_squares_pos:
  "list_ex (\<lambda>z. z \<noteq> 0) v \<Longrightarrow> list_all (\<lambda>z. Im z = 0) v \<Longrightarrow>
     0 < sum_list (map (\<lambda>z. (Re z)\<^sup>2) v)"
proof (induction v)
  case Nil
  then show ?case by simp
next
  case (Cons a v)
  have nn: "0 \<le> sum_list (map (\<lambda>z. (Re z)\<^sup>2) v)"
    by (rule sum_list_nonneg) auto
  show ?case
  proof (cases "a = 0")
    case True
    with Cons show ?thesis by simp
  next
    case False
    with Cons.prems have "Re a \<noteq> 0" by (auto simp: complex_eq_iff)
    then have "0 < (Re a)\<^sup>2" by simp
    with nn have "0 < (Re a)\<^sup>2 + sum_list (map (\<lambda>z. (Re z)\<^sup>2) v)" by linarith
    then show ?thesis by simp
  qed
qed

lemma inner_u_real_nonzero:
  "list_all (\<lambda>z. Im z = 0) v \<Longrightarrow> list_ex (\<lambda>z. z \<noteq> 0) v \<Longrightarrow> inner_u v v \<noteq> 0"
  using sum_squares_pos [of v] by (simp add: inner_u_real)

lemma map2_minus_self: "map2 (-) x x = replicate (length x) (0::complex)"
  by (induction x) simp_all

lemma np_sub_self: "np_sub x x = Inr (replicate (length x) 0)"
  by (simp add: np_sub_def map2_minus_self)

lemma dot_mv_zeros:
  "list_all (\<lambda>r. length r = n) A \<Longrightarrow> dot_mv A (replicate n 0) = Inr (replicate (length A) 0)"
  by (simp add: dot_mv_def inner_u_zeros map_replicate_const)

lemma np_neg_zeros: "np_neg (replicate n 0) = replicate n 0"
  by (simp add: np_neg_def)

text \<open>In exact arithmetic a frame \<open>c*v0\<close> with \<^verbatim>\<open>np.dot(v0, v0)\<close> not 0 has the gain \<open>c\<close>.\<close>

lemma solve_gs_scaled:
  assumes h: "list_all (\<lambda>r. length r = length v0) (H self)" and d: "inner_u v0 v0 \<noteq> 0"
  shows "solve_gs self (scale_v c v0) v0 = Inr (replicate (length (H self)) 0)"
proof -
  have l: "length (scale_v c v0) = length v0" by (simp add: scale_v_def)
  have a: "c * inner_u v0 v0 / inner_u v0 v0 = c" using d by simp
  show ?thesis
    using h d
    by (simp add: solve_gs_def dot_vv_def l inner_u_scale a np_sub_self dot_mv_zeros np_neg_zeros)
qed

text \<open>The body over the exact arithmetic is \<open>solve_gs\<close>.\<close>

lemma solve_gs_exact: "solve_gs self v1 v0 = solve_gs_fl exact_ops self v1 v0"
  by (simp add: solve_gs_def solve_gs_fl_def dot_vv_def np_sub_def dot_mv_def scale_v_def
        gs_dv_def gs_gain_def exact_ops_def np_neg_def comp_def)


text \<open>
  What rounding does to the frame \<open>c*v0\<close>. The computed gain is near \<open>c\<close>, not
  \<open>c\<close>: the entries of \<open>dv\<close> are rounding errors, small against those of \<open>c*v0\<close>,
  and not 0 in general.
\<close>

lemma abs_dot_Nil [simp]: "abs_dot [] y = 0" "abs_dot x [] = 0"
  by (simp_all add: abs_dot_def)

lemma abs_dot_Cons [simp]: "abs_dot (a # x) (b # y) = cmod a * cmod b + abs_dot x y"
  by (simp add: abs_dot_def)

lemma abs_dot_nonneg: "0 \<le> abs_dot x y"
  by (induction x arbitrary: y) (case_tac [2] y, simp_all)

lemma cmod_inner_u_le: "cmod (inner_u x y) \<le> abs_dot x y"
proof (induction x arbitrary: y)
  case Nil
  then show ?case by simp
next
  case (Cons a x)
  show ?case
  proof (cases y)
    case Nil
    then show ?thesis by simp
  next
    case (Cons b y')
    have "cmod (a * b + inner_u x y') \<le> cmod (a * b) + cmod (inner_u x y')"
      by (rule norm_triangle_ineq)
    also have "\<dots> \<le> cmod a * cmod b + abs_dot x y'"
      using Cons.IH [of y'] by (simp add: norm_mult)
    finally show ?thesis using Cons by simp
  qed
qed

lemma abs_dot_scale: "abs_dot (scale_v c x) y = cmod c * abs_dot x y"
  by (induction x arbitrary: y)
     (case_tac [2] y, simp_all add: scale_v_def norm_mult algebra_simps)

lemma abs_dot_mono:
  "list_all2 (\<lambda>d z. cmod d \<le> K * cmod z) dv w \<Longrightarrow> abs_dot r dv \<le> K * abs_dot r w"
proof (induction dv w arbitrary: r rule: list_all2_induct)
  case Nil
  then show ?case by simp
next
  case (Cons d dv z w)
  show ?case
  proof (cases r)
    case Nil
    then show ?thesis by simp
  next
    case (Cons h r')
    have "cmod h * cmod d \<le> cmod h * (K * cmod z)"
      using Cons.hyps(1) by (intro mult_left_mono) simp_all
    with Cons.IH [of r'] show ?thesis
      using Cons by (simp add: algebra_simps)
  qed
qed


lemma gain_error:
  assumes n: "cmod (n - c * s) \<le> g * (cmod c * S)" and d: "cmod (d - s) \<le> g * S"
    and cond: "g * S < cmod s" and g: "0 \<le> g" and S: "0 \<le> S" and u: "0 \<le> u"
    and a: "cmod (a - n / d) \<le> u * cmod (n / d)"
  shows "d \<noteq> 0" and "cmod (a - c) \<le> cmod c * gs_gain_err u g S (cmod s)"
proof -
  let ?D = "cmod s - g * S"
  define q where "q = 2 * g * S / (cmod s - g * S)"
  have D: "0 < ?D" using cond by simp
  have "cmod s \<le> cmod d + cmod (s - d)" using norm_triangle_sub [of s d] by simp
  also have "cmod (s - d) = cmod (d - s)" by (rule norm_minus_commute)
  finally have dD: "?D \<le> cmod d" using d by simp
  from D dD have dpos: "0 < cmod d" by (rule less_le_trans)
  then show d0: "d \<noteq> 0" by auto
  have "n - c * d = (n - c * s) + c * (s - d)" by (simp add: algebra_simps)
  then have "cmod (n - c * d) \<le> cmod (n - c * s) + cmod (c * (s - d))"
    by (metis norm_triangle_ineq)
  also have "cmod (c * (s - d)) = cmod c * cmod (d - s)"
    by (simp add: norm_mult norm_minus_commute)
  also have "cmod (n - c * s) + cmod c * cmod (d - s) \<le> g * (cmod c * S) + cmod c * (g * S)"
    using n d by (intro add_mono mult_left_mono) simp_all
  finally have num: "cmod (n - c * d) \<le> cmod c * (2 * g * S)" by (simp add: algebra_simps)
  have "n / d - c = (n - c * d) / d" using d0 by (simp add: field_simps)
  then have "cmod (n / d - c) = cmod (n - c * d) / cmod d" by (simp add: norm_divide)
  also have "\<dots> \<le> cmod c * (2 * g * S) / ?D"
    using num dD D g S by (intro frac_le) simp_all
  finally have q: "cmod (n / d - c) \<le> cmod c * q" by (simp add: q_def)
  have "cmod (n / d) \<le> cmod c + cmod (n / d - c)"
    using norm_triangle_ineq [of c "n / d - c"] by simp
  with q have nd: "cmod (n / d) \<le> cmod c * (1 + q)" by (simp add: algebra_simps)
  have "cmod (a - c) \<le> cmod (a - n / d) + cmod (n / d - c)"
    using norm_triangle_ineq [of "a - n / d" "n / d - c"] by simp
  also have "\<dots> \<le> u * (cmod c * (1 + q)) + cmod c * q"
    using a nd q u by (intro add_mono order_trans [OF a] mult_left_mono) simp_all
  also have "\<dots> = cmod c * (u + (1 + u) * q)"
    by (simp add: algebra_simps)
  also have "u + (1 + u) * q = gs_gain_err u g S (cmod s)"
    by (simp add: gs_gain_err_def q_def)
  finally show "cmod (a - c) \<le> cmod c * gs_gain_err u g S (cmod s)" .
qed

lemma gs_gain_err_nonneg:
  "0 \<le> u \<Longrightarrow> 0 \<le> g \<Longrightarrow> 0 \<le> S \<Longrightarrow> g * S < s \<Longrightarrow> 0 \<le> gs_gain_err u g S s"
  by (simp add: gs_gain_err_def)

lemma entry_error:
  assumes ac: "cmod (a - c) \<le> cmod c * E" and E: "0 \<le> E" and u: "0 \<le> u"
    and t: "cmod (t - a * z) \<le> u * cmod (a * z)"
    and dv: "cmod (dv - (c * z - t)) \<le> u * cmod (c * z - t)"
  shows "cmod dv \<le> ((1 + u) * (E + u * (1 + E))) * (cmod c * cmod z)"
proof -
  have "cmod a \<le> cmod c + cmod (a - c)" using norm_triangle_ineq [of c "a - c"] by simp
  with ac have a: "cmod a \<le> cmod c * (1 + E)" by (simp add: algebra_simps)
  have "cmod (a * z) = cmod a * cmod z" by (simp add: norm_mult)
  also have "\<dots> \<le> cmod c * (1 + E) * cmod z"
    using a by (intro mult_right_mono) simp_all
  finally have az: "cmod (a * z) \<le> cmod c * (1 + E) * cmod z" .
  have t': "cmod (a * z - t) \<le> u * (cmod c * (1 + E) * cmod z)"
  proof -
    have "cmod (a * z - t) = cmod (t - a * z)" by (rule norm_minus_commute)
    also have "\<dots> \<le> u * cmod (a * z)" by (rule t)
    also have "\<dots> \<le> u * (cmod c * (1 + E) * cmod z)"
      using az u by (intro mult_left_mono) simp_all
    finally show ?thesis .
  qed
  have "c * z - t = (c - a) * z + (a * z - t)" by (simp add: algebra_simps)
  then have "cmod (c * z - t) \<le> cmod ((c - a) * z) + cmod (a * z - t)"
    by (metis norm_triangle_ineq)
  also have "cmod ((c - a) * z) = cmod (a - c) * cmod z"
    by (simp add: norm_mult norm_minus_commute)
  also have "cmod (a - c) * cmod z + cmod (a * z - t)
               \<le> cmod c * E * cmod z + u * (cmod c * (1 + E) * cmod z)"
    using ac t' by (intro add_mono mult_right_mono) simp_all
  finally have r: "cmod (c * z - t) \<le> (E + u * (1 + E)) * (cmod c * cmod z)"
    by (simp add: algebra_simps)
  have "cmod dv \<le> cmod (dv - (c * z - t)) + cmod (c * z - t)"
    using norm_triangle_ineq [of "dv - (c * z - t)" "c * z - t"] by simp
  also have "\<dots> \<le> u * cmod (c * z - t) + cmod (c * z - t)" using dv by simp
  also have "\<dots> = (1 + u) * cmod (c * z - t)" by (simp add: algebra_simps)
  also have "\<dots> \<le> (1 + u) * ((E + u * (1 + E)) * (cmod c * cmod z))"
    using r u by (intro mult_left_mono) simp_all
  finally show ?thesis by (simp add: algebra_simps)
qed


lemma solve_gs_fl_bound:
  assumes shape: "list_all (\<lambda>r. length r = length v0) (H self)"
    and u: "0 \<le> u" and g: "0 \<le> g"
    and cond: "g * abs_dot v0 v0 < cmod (inner_u v0 v0)"
    and acc: "gs_accurate ops u g (H self) (scale_v c v0) v0"
  shows "solve_gs_fl ops self (scale_v c v0) v0
           = Inr (map (\<lambda>r. - fl_dot ops r (gs_dv ops (scale_v c v0) v0)) (H self))"
    and "r \<in> set (H self) \<Longrightarrow>
           cmod (- fl_dot ops r (gs_dv ops (scale_v c v0) v0))
             \<le> gs_bound u g (abs_dot v0 v0) (cmod (inner_u v0 v0)) * (cmod c * abs_dot r v0)"
proof -
  let ?v1 = "scale_v c v0"
  let ?s = "inner_u v0 v0"
  let ?S = "abs_dot v0 v0"
  let ?n = "fl_dot ops ?v1 v0"
  let ?d = "fl_dot ops v0 v0"
  let ?a = "gs_gain ops ?v1 v0"
  let ?dv = "gs_dv ops ?v1 v0"
  let ?E = "gs_gain_err u g ?S (cmod ?s)"
  let ?F = "(1 + u) * (?E + u * (1 + ?E))"
  have S: "0 \<le> ?S" by (rule abs_dot_nonneg)
  have E: "0 \<le> ?E" using u g S cond by (rule gs_gain_err_nonneg)
  from acc have an: "cmod (?n - c * ?s) \<le> g * (cmod c * ?S)"
    and ad: "cmod (?d - ?s) \<le> g * ?S"
    and aa: "cmod (?a - ?n / ?d) \<le> u * cmod (?n / ?d)"
    and am: "list_all (\<lambda>z. cmod (fl_mul ops ?a z - ?a * z) \<le> u * cmod (?a * z)) v0"
    and as: "list_all (\<lambda>xy. cmod (fl_sub ops (fst xy) (snd xy) - (fst xy - snd xy))
                          \<le> u * cmod (fst xy - snd xy))
               (zip ?v1 (map (fl_mul ops ?a) v0))"
    and ar: "list_all (\<lambda>r. cmod (fl_dot ops r ?dv - inner_u r ?dv) \<le> g * abs_dot r ?dv) (H self)"
    by (simp_all add: gs_accurate_def inner_u_scale abs_dot_scale)
  from gain_error [OF an ad cond g S u aa]
  have d0: "?d \<noteq> 0" and ac: "cmod (?a - c) \<le> cmod c * ?E" .
  have l1: "length ?v1 = length v0" by (simp add: scale_v_def)
  show "solve_gs_fl ops self ?v1 v0 = Inr (map (\<lambda>r. - fl_dot ops r ?dv) (H self))"
    using shape d0 l1 by (simp add: solve_gs_fl_def)
  have ldv: "length ?dv = length v0" by (simp add: gs_dv_def scale_v_def)
  have ent: "cmod (?dv ! j) \<le> (?F * cmod c) * cmod (v0 ! j)" if j: "j < length v0" for j
  proof -
    let ?z = "v0 ! j"
    let ?t = "fl_mul ops ?a ?z"
    have dvj: "?dv ! j = fl_sub ops (c * ?z) ?t"
      using j by (simp add: gs_dv_def scale_v_def)
    from am j have t: "cmod (?t - ?a * ?z) \<le> u * cmod (?a * ?z)"
      by (simp add: list_all_length)
    from as j have "cmod (fl_sub ops (c * ?z) ?t - (c * ?z - ?t)) \<le> u * cmod (c * ?z - ?t)"
      by (simp add: list_all_length scale_v_def)
    then have sb: "cmod (?dv ! j - (c * ?z - ?t)) \<le> u * cmod (c * ?z - ?t)"
      by (simp only: dvj)
    from entry_error [OF ac E u t sb] show ?thesis by (simp add: algebra_simps)
  qed
  have all2: "list_all2 (\<lambda>d z. cmod d \<le> (?F * cmod c) * cmod z) ?dv v0"
    using ldv ent by (simp add: list_all2_conv_all_nth)
  show "cmod (- fl_dot ops r ?dv)
          \<le> gs_bound u g ?S (cmod ?s) * (cmod c * abs_dot r v0)" if r: "r \<in> set (H self)"
  proof -
    from ar r have e: "cmod (fl_dot ops r ?dv - inner_u r ?dv) \<le> g * abs_dot r ?dv"
      by (simp add: list_all_iff)
    have "cmod (fl_dot ops r ?dv) \<le> cmod (fl_dot ops r ?dv - inner_u r ?dv) + cmod (inner_u r ?dv)"
      using norm_triangle_ineq [of "fl_dot ops r ?dv - inner_u r ?dv" "inner_u r ?dv"] by simp
    also have "\<dots> \<le> g * abs_dot r ?dv + abs_dot r ?dv"
      using e cmod_inner_u_le [of r ?dv] by (intro add_mono) simp_all
    also have "\<dots> = (1 + g) * abs_dot r ?dv" by (simp add: algebra_simps)
    also have "\<dots> \<le> (1 + g) * ((?F * cmod c) * abs_dot r v0)"
      using abs_dot_mono [OF all2, of r] g by (intro mult_left_mono) simp_all
    also have "\<dots> = gs_bound u g ?S (cmod ?s) * (cmod c * abs_dot r v0)"
      by (simp add: gs_bound_def algebra_simps)
    finally show ?thesis by simp
  qed
qed

text \<open>
  For a real frame \<open>abs_dot v0 v0\<close> is \<^verbatim>\<open>np.dot(v0, v0)\<close>, the sum of the squares, so
  that a nonzero real frame meets the condition of the bound as soon as \<open>g < 1\<close>.
\<close>

lemma abs_dot_real:
  "list_all (\<lambda>z. Im z = 0) v \<Longrightarrow> abs_dot v v = sum_list (map (\<lambda>z. (Re z)\<^sup>2) v)"
  by (induction v) (simp_all add: cmod_def power2_eq_square)

lemma real_frame_condition:
  assumes re: "list_all (\<lambda>z. Im z = 0) v0" and nz: "list_ex (\<lambda>z. z \<noteq> 0) v0" and g: "g < 1"
  shows "g * abs_dot v0 v0 < cmod (inner_u v0 v0)"
proof -
  let ?q = "sum_list (map (\<lambda>z. (Re z)\<^sup>2) v0)"
  have pos: "0 < ?q" using nz re by (rule sum_squares_pos)
  have "cmod (inner_u v0 v0) = ?q" using pos by (simp add: inner_u_real [OF re])
  moreover have "abs_dot v0 v0 = ?q" using re by (rule abs_dot_real)
  moreover have "g * ?q < ?q" using pos g by simp
  ultimately show ?thesis by simp
qed



subsection \<open>Elimination\<close>

text \<open>
  Which pivots the elimination finds depends on the matrix only, not on the
  right-hand side; a right-hand side of zeros stays one; every column adds a row to
  the result.
\<close>

lemma fst_row_scale: "fst (row_scale c r) = map ((*) c) (fst r)"
  by (simp add: row_scale_def)

lemma fst_row_elim:
  "fst (row_elim k piv r) = map2 (\<lambda>x y. x - fst r ! k * y) (fst r) (fst piv)"
  by (simp add: row_elim_def)

lemma map_fst_row_elim:
  "fst p1 = fst p2 \<Longrightarrow> map fst u1 = map fst u2 \<Longrightarrow>
     map fst (map (row_elim k p1) u1) = map fst (map (row_elim k p2) u2)"
proof (induction u1 arbitrary: u2)
  case Nil
  then show ?case by simp
next
  case (Cons a u1)
  then obtain b u2' where u2: "u2 = b # u2'" by (cases u2) auto
  with Cons.prems have "fst a = fst b" "map fst u1 = map fst u2'" by simp_all
  with Cons.IH [of u2'] Cons.prems(1) u2 show ?case by (simp add: fst_row_elim)
qed

lemma map_fst_dropWhile:
  "map fst (dropWhile (\<lambda>r. fst r ! k = 0) rows) = dropWhile (\<lambda>a. a ! k = (0::complex)) (map fst rows)"
  by (simp add: dropWhile_map comp_def)

lemma map_fst_takeWhile:
  "map fst (takeWhile (\<lambda>r. fst r ! k = 0) rows) = takeWhile (\<lambda>a. a ! k = (0::complex)) (map fst rows)"
  by (simp add: takeWhile_map comp_def)

lemma gauss_jordan_left_only:
  "map fst u1 = map fst u2 \<Longrightarrow> map fst r1 = map fst r2 \<Longrightarrow>
     (gauss_jordan ks u1 r1 = None) = (gauss_jordan ks u2 r2 = None)"
proof (induction ks arbitrary: u1 u2 r1 r2)
  case Nil
  then show ?case by simp
next
  case (Cons k ks)
  note prems = Cons.prems and IH = Cons.IH
  let ?d1 = "dropWhile (\<lambda>r. fst r ! k = 0) r1"
  let ?d2 = "dropWhile (\<lambda>r. fst r ! k = 0) r2"
  let ?t1 = "takeWhile (\<lambda>r. fst r ! k = 0) r1"
  let ?t2 = "takeWhile (\<lambda>r. fst r ! k = 0) r2"
  have d: "map fst ?d1 = map fst ?d2" using prems(2) by (simp add: map_fst_dropWhile)
  have t: "map fst ?t1 = map fst ?t2" using prems(2) by (simp add: map_fst_takeWhile)
  show ?case
  proof (cases ?d1)
    case d1: Nil
    with d have d2: "?d2 = []" by simp
    show ?thesis by (simp only: gauss_jordan.simps d1 d2 list.case)
  next
    case d1: (Cons a below1)
    with d obtain b below2 where d2: "?d2 = b # below2" by (cases ?d2) auto
    from d d1 d2 have ab: "fst a = fst b" and bel: "map fst below1 = map fst below2"
      by simp_all
    let ?p1 = "row_scale (1 / fst a ! k) a"
    let ?p2 = "row_scale (1 / fst b ! k) b"
    have p: "fst ?p1 = fst ?p2" using ab by (simp add: fst_row_scale)
    have up: "map fst (map (row_elim k ?p1) u1 @ [?p1]) = map fst (map (row_elim k ?p2) u2 @ [?p2])"
      using map_fst_row_elim [OF p prems(1)] p by simp
    have "map fst (?t1 @ below1) = map fst (?t2 @ below2)" using t bel by simp
    from map_fst_row_elim [OF p this]
    have re: "map fst (map (row_elim k ?p1) (?t1 @ below1))
               = map fst (map (row_elim k ?p2) (?t2 @ below2))" .
    from IH [OF up re] show ?thesis by (simp only: gauss_jordan.simps d1 d2 list.case)
  qed
qed

lemma gauss_jordan_length:
  "gauss_jordan ks upper rest = Some rows \<Longrightarrow> length rows = length upper + length ks"
proof (induction ks arbitrary: upper rest)
  case Nil
  then show ?case by simp
next
  case (Cons k ks)
  then show ?case by (auto split: list.splits)
qed

lemma gauss_jordan_zero_rhs:
  "list_all (\<lambda>r. snd r = [0]) upper \<Longrightarrow> list_all (\<lambda>r. snd r = [0]) rest \<Longrightarrow>
     gauss_jordan ks upper rest = Some rows \<Longrightarrow> list_all (\<lambda>r. snd r = [0]) rows"
proof (induction ks arbitrary: upper rest)
  case Nil
  then show ?case by simp
next
  case (Cons k ks)
  from Cons.prems(3) obtain a below where
    d: "dropWhile (\<lambda>r. fst r ! k = 0) rest = a # below"
    and g: "gauss_jordan ks
              (map (row_elim k (row_scale (1 / fst a ! k) a)) upper @ [row_scale (1 / fst a ! k) a])
              (map (row_elim k (row_scale (1 / fst a ! k) a))
                 (takeWhile (\<lambda>r. fst r ! k = 0) rest @ below)) = Some rows"
    by (auto split: list.splits)
  let ?p = "row_scale (1 / fst a ! k) a"
  have "set (a # below) \<subseteq> set rest" using d set_dropWhileD by (metis subsetI)
  with Cons.prems(2) have a0: "snd a = [0]" and b0: "list_all (\<lambda>r. snd r = [0]) below"
    by (auto simp: list_all_iff)
  have t0: "list_all (\<lambda>r. snd r = [0]) (takeWhile (\<lambda>r. fst r ! k = 0) rest)"
    using Cons.prems(2) set_takeWhileD by (fastforce simp: list_all_iff)
  have p0: "snd ?p = [0]" using a0 by (simp add: row_scale_def)
  have e0: "snd (row_elim k ?p r) = [0]" if "snd r = [0]" for r
    using that p0 by (simp add: row_elim_def)
  have u: "list_all (\<lambda>r. snd r = [0]) (map (row_elim k ?p) upper @ [?p])"
    using Cons.prems(1) p0 e0 by (auto simp: list_all_iff)
  have r: "list_all (\<lambda>r. snd r = [0]) (map (row_elim k ?p) (takeWhile (\<lambda>r. fst r ! k = 0) rest @ below))"
    using t0 b0 e0 by (auto simp: list_all_iff)
  from Cons.IH [OF u r g] show ?case .
qed

lemma la_solve_zero:
  assumes "nonsingular A"
  shows "la_solve A (replicate (length A) 0) = Inr (replicate (length A) 0)"
proof -
  let ?n = "length A"
  let ?z = "zip A (map (\<lambda>x. [x]) (replicate ?n (0::complex)))"
  from assms have sq: "is_square A"
    and inv: "gauss_jordan [0..<?n] [] (zip A (eye ?n)) \<noteq> None"
    by (auto simp: nonsingular_def la_inv_def split: if_splits option.splits)
  have "map fst ?z = map fst (zip A (eye ?n :: mat))"
    by (simp add: map_fst_zip eye_def)
  from gauss_jordan_left_only [OF refl this, of "[0..<?n]" "[]"] inv
  obtain rows where g: "gauss_jordan [0..<?n] [] ?z = Some rows" by auto
  have "list_all (\<lambda>r. snd r = [0]) ?z"
    by (auto simp: list_all_iff set_zip)
  from gauss_jordan_zero_rhs [OF _ this g] have z: "list_all (\<lambda>r. snd r = [0]) rows" by simp
  from gauss_jordan_length [OF g] have l: "length rows = ?n" by simp
  have "map (\<lambda>r. hd (snd r)) rows = replicate ?n 0"
    using z l by (auto simp: list_all_iff intro!: replicate_eqI)
  with sq g show ?thesis by (simp add: la_solve_def)
qed


subsection \<open>The elimination computes solutions and inverses\<close>

text \<open>
  Every step of the elimination keeps the set of solutions of the rows' equations,
  and a run that finds a pivot in every column ends with the rows of the identity
  on the left. So \<open>la_solve\<close> returns the one solution of \<open>A x = b\<close>, \<open>la_inv\<close>
  returns a matrix \<open>B\<close> with \<open>A B = I\<close>, and a square matrix is \<open>nonsingular\<close> when
  and only when \<open>A x = 0\<close> has the zero vector as its one solution.
\<close>

lemma inner_u_map_scale: "inner_u (map ((*) c) a) x = c * inner_u a x"
  using inner_u_scale [of c a x] by (simp add: scale_v_def)

lemma inner_u_elim:
  "length a = length p \<Longrightarrow>
     inner_u (map2 (\<lambda>u v. u - c * v) a p) x = inner_u a x - c * inner_u p x"
proof (induction a p arbitrary: x rule: list_induct2)
  case Nil
  then show ?case by simp
next
  case (Cons u a v p)
  then show ?case by (cases x) (simp_all add: algebra_simps)
qed

lemma row_ok_scale: "row_ok n m r \<Longrightarrow> row_ok n m (row_scale c r)"
  by (simp add: row_ok_def row_scale_def)

lemma row_ok_elim: "row_ok n m p \<Longrightarrow> row_ok n m u \<Longrightarrow> row_ok n m (row_elim k p u)"
  by (simp add: row_ok_def row_elim_def)

lemma rows_ok_elim:
  "row_ok n m p \<Longrightarrow> list_all (row_ok n m) us \<Longrightarrow>
     list_all (row_ok n m) (map (row_elim k p) us)"
  by (induction us) (simp_all add: row_ok_elim)

lemma sol_scale:
  "c \<noteq> 0 \<Longrightarrow> j < length (snd r) \<Longrightarrow> sol j x (row_scale c r) = sol j x r"
  by (simp add: sol_def row_scale_def inner_u_map_scale)

lemma sol_elim:
  assumes "row_ok n m p" "row_ok n m u" "j < m" "sol j x p"
  shows "sol j x (row_elim k p u) = sol j x u"
proof -
  from assms(1,2) have l: "length (fst u) = length (fst p)" "length (snd u) = length (snd p)"
    by (simp_all add: row_ok_def)
  from assms(2,3) have j: "j < length (snd u)" by (simp add: row_ok_def)
  with l have j': "j < length (snd p)" by simp
  from assms(4) have p: "inner_u (fst p) x = snd p ! j" by (simp add: sol_def)
  show ?thesis
    using j j' by (simp add: sol_def row_elim_def inner_u_elim [OF l(1)] p)
qed

lemma sols_elim:
  "row_ok n m p \<Longrightarrow> j < m \<Longrightarrow> sol j x p \<Longrightarrow> list_all (row_ok n m) us \<Longrightarrow>
     list_all (sol j x) (map (row_elim k p) us) = list_all (sol j x) us"
  by (induction us) (simp_all add: sol_elim)

lemma pivot_split:
  assumes "dropWhile (\<lambda>r. fst r ! k = 0) rest = r # below"
  shows "rest = takeWhile (\<lambda>r. fst r ! k = 0) rest @ r # below" and "fst r ! k \<noteq> 0"
proof -
  show "rest = takeWhile (\<lambda>r. fst r ! k = 0) rest @ r # below"
    using takeWhile_dropWhile_id [of "\<lambda>r. fst r ! k = 0" rest] assms by simp
  show "fst r ! k \<noteq> 0"
    using hd_dropWhile [of "\<lambda>r. fst r ! k = 0" rest] assms by auto
qed

lemma gauss_jordan_sol:
  "list_all (row_ok n m) upper \<Longrightarrow> list_all (row_ok n m) rest \<Longrightarrow> j < m \<Longrightarrow>
   length rest = length ks \<Longrightarrow> gauss_jordan ks upper rest = Some rows \<Longrightarrow>
     list_all (row_ok n m) rows \<and> list_all (sol j x) rows = list_all (sol j x) (upper @ rest)"
proof (induction ks arbitrary: upper rest)
  case Nil
  then show ?case by simp
next
  case (Cons k ks)
  note prems = Cons.prems and IH = Cons.IH
  let ?zs = "takeWhile (\<lambda>r. fst r ! k = 0) rest"
  from prems(5) obtain r below where
    d: "dropWhile (\<lambda>r. fst r ! k = 0) rest = r # below"
    and g: "gauss_jordan ks
              (map (row_elim k (row_scale (1 / fst r ! k) r)) upper @ [row_scale (1 / fst r ! k) r])
              (map (row_elim k (row_scale (1 / fst r ! k) r)) (?zs @ below)) = Some rows"
    by (auto split: list.splits)
  let ?p = "row_scale (1 / fst r ! k) r"
  from pivot_split [OF d] have rest: "rest = ?zs @ r # below" and nz: "fst r ! k \<noteq> 0" .
  have "list_all (row_ok n m) (?zs @ r # below)" using prems(2) rest by simp
  then have okr: "row_ok n m r" and okz: "list_all (row_ok n m) (?zs @ below)"
    by (simp_all add: list_all_iff)
  have okp: "row_ok n m ?p" using okr by (rule row_ok_scale)
  have oku: "list_all (row_ok n m) (map (row_elim k ?p) upper @ [?p])"
    using rows_ok_elim [OF okp prems(1)] okp by simp
  have okr': "list_all (row_ok n m) (map (row_elim k ?p) (?zs @ below))"
    using okp okz by (rule rows_ok_elim)
  have len: "length (map (row_elim k ?p) (?zs @ below)) = length ks"
  proof -
    have "length rest = Suc (length (?zs @ below))" by (subst rest) simp
    with prems(4) show ?thesis by simp
  qed
  from IH [OF oku okr' prems(3) len g]
  have ok: "list_all (row_ok n m) rows"
    and eq: "list_all (sol j x) rows
       = list_all (sol j x) ((map (row_elim k ?p) upper @ [?p]) @ map (row_elim k ?p) (?zs @ below))"
    by simp_all
  have jr: "j < length (snd r)" using okr prems(3) by (simp add: row_ok_def)
  have sp: "sol j x ?p = sol j x r" using nz jr by (intro sol_scale) simp_all
  have "list_all (sol j x) ((map (row_elim k ?p) upper @ [?p]) @ map (row_elim k ?p) (?zs @ below))
          = (sol j x r \<and> list_all (sol j x) upper \<and> list_all (sol j x) (?zs @ below))"
  proof (cases "sol j x r")
    case True
    with sp have p: "sol j x ?p" by simp
    from sols_elim [OF okp prems(3) p prems(1)] sols_elim [OF okp prems(3) p okz] p True
    show ?thesis by simp
  next
    case False
    with sp show ?thesis by simp
  qed
  also have "\<dots> = list_all (sol j x) (upper @ rest)"
    by (subst (2) rest) (auto simp: list_all_iff)
  finally show ?case using ok eq by simp
qed


lemma fst_row_elim_nth:
  "row_ok n m p \<Longrightarrow> row_ok n m u \<Longrightarrow> c < n \<Longrightarrow>
     fst (row_elim k p u) ! c = fst u ! c - fst u ! k * fst p ! c"
  by (simp add: row_elim_def row_ok_def)

lemma fst_row_scale_nth:
  "row_ok n m r \<Longrightarrow> c < n \<Longrightarrow> fst (row_scale a r) ! c = a * fst r ! c"
  by (simp add: row_scale_def row_ok_def)

lemma unit_rows_eye:
  assumes ok: "list_all (row_ok n m) upper" and len: "length upper = n"
    and u: "\<forall>i<n. \<forall>c<n. fst (upper ! i) ! c = (if i = c then 1 else 0)"
  shows "map fst upper = eye n"
proof (rule nth_equalityI)
  show "length (map fst upper) = length (eye n :: mat)" using len by (simp add: eye_def)
next
  fix i assume "i < length (map fst upper)"
  then have i: "i < n" using len by simp
  with ok len have li: "length (fst (upper ! i)) = n"
    by (simp add: list_all_length row_ok_def)
  have "fst (upper ! i) = map (\<lambda>j. if i = j then 1 else 0) [0..<n]"
    using li u i by (intro nth_equalityI) simp_all
  with i len show "map fst upper ! i = eye n ! i" by (simp add: eye_def)
qed

lemma pivot_step:
  assumes oku: "list_all (row_ok n m) upper" and okr: "list_all (row_ok n m) rest"
    and len: "length upper = k" and kn: "k < n"
    and unit: "\<forall>i<k. \<forall>c<k. fst (upper ! i) ! c = (if i = c then 1 else 0)"
    and zero: "\<forall>r\<in>set rest. \<forall>c<k. fst r ! c = 0"
    and d: "dropWhile (\<lambda>r. fst r ! k = 0) rest = r # below"
    and p: "p = row_scale (1 / fst r ! k) r"
    and zs: "zs = takeWhile (\<lambda>r. fst r ! k = 0) rest"
  shows "list_all (row_ok n m) (map (row_elim k p) upper @ [p])"
    and "list_all (row_ok n m) (map (row_elim k p) (zs @ below))"
    and "\<forall>i<Suc k. \<forall>c<Suc k.
           fst ((map (row_elim k p) upper @ [p]) ! i) ! c = (if i = c then 1 else 0)"
    and "\<forall>u\<in>set (map (row_elim k p) (zs @ below)). \<forall>c<Suc k. fst u ! c = 0"
proof -
  from pivot_split [OF d] zs have rest: "rest = zs @ r # below" and nz: "fst r ! k \<noteq> 0"
    by simp_all
  have "list_all (row_ok n m) (zs @ r # below)" using okr rest by simp
  then have okr1: "row_ok n m r" and okz: "list_all (row_ok n m) (zs @ below)"
    by (simp_all add: list_all_iff)
  have "set rest = set (zs @ r # below)" using rest by simp
  then have sub: "set (zs @ below) \<subseteq> set rest" and rin: "r \<in> set rest"
    by auto
  have okp: "row_ok n m p" unfolding p using okr1 by (rule row_ok_scale)
  have pk: "fst p ! k = 1" using nz kn by (simp add: p fst_row_scale_nth [OF okr1])
  have pc: "fst p ! c = 0" if "c < k" for c
    using that kn zero rin by (simp add: p fst_row_scale_nth [OF okr1])
  show "list_all (row_ok n m) (map (row_elim k p) upper @ [p])"
    using rows_ok_elim [OF okp oku] okp by simp
  show "list_all (row_ok n m) (map (row_elim k p) (zs @ below))"
    using okp okz by (rule rows_ok_elim)
  show "\<forall>i<Suc k. \<forall>c<Suc k.
      fst ((map (row_elim k p) upper @ [p]) ! i) ! c = (if i = c then 1 else 0)"
  proof (intro allI impI)
    fix i c assume i: "i < Suc k" and c: "c < Suc k"
    show "fst ((map (row_elim k p) upper @ [p]) ! i) ! c = (if i = c then 1 else 0)"
    proof (cases "i = k")
      case True
      then have "(map (row_elim k p) upper @ [p]) ! i = p"
        using len by (simp add: nth_append)
      with True c pk pc show ?thesis by (cases "c = k") auto
    next
      case False
      with i have ik: "i < k" by simp
      then have e: "(map (row_elim k p) upper @ [p]) ! i = row_elim k p (upper ! i)"
        using len by (simp add: nth_append)
      have oki: "row_ok n m (upper ! i)"
        using oku len ik by (simp add: list_all_length)
      have cn: "c < n" using c kn by simp
      have f: "fst (row_elim k p (upper ! i)) ! c
                 = fst (upper ! i) ! c - fst (upper ! i) ! k * fst p ! c"
        using okp oki cn by (rule fst_row_elim_nth)
      show ?thesis
      proof (cases "c = k")
        case True
        with ik pk f show ?thesis by (simp add: e)
      next
        case False
        with c have ck: "c < k" by simp
        with ik unit pc f show ?thesis by (simp add: e)
      qed
    qed
  qed
  show "\<forall>u\<in>set (map (row_elim k p) (zs @ below)). \<forall>c<Suc k. fst u ! c = 0"
  proof (intro ballI allI impI)
    fix u' c assume u': "u' \<in> set (map (row_elim k p) (zs @ below))" and c: "c < Suc k"
    then obtain u where u: "u \<in> set (zs @ below)" and e: "u' = row_elim k p u" by auto
    from u okz have oku1: "row_ok n m u" by (simp add: list_all_iff)
    from u sub have ur: "u \<in> set rest" by auto
    have cn: "c < n" using c kn by simp
    have f: "fst (row_elim k p u) ! c = fst u ! c - fst u ! k * fst p ! c"
      using okp oku1 cn by (rule fst_row_elim_nth)
    show "fst u' ! c = 0"
    proof (cases "c = k")
      case True
      with pk f show ?thesis by (simp add: e)
    next
      case False
      with c have ck: "c < k" by simp
      with zero ur pc f show ?thesis by (simp add: e)
    qed
  qed
qed

lemma gauss_jordan_unit:
  "list_all (row_ok n m) upper \<Longrightarrow> list_all (row_ok n m) rest \<Longrightarrow>
   length upper = k \<Longrightarrow> k \<le> n \<Longrightarrow> ks = [k..<n] \<Longrightarrow>
   \<forall>i<k. \<forall>c<k. fst (upper ! i) ! c = (if i = c then 1 else 0) \<Longrightarrow>
   \<forall>r\<in>set rest. \<forall>c<k. fst r ! c = 0 \<Longrightarrow>
   gauss_jordan ks upper rest = Some rows \<Longrightarrow> map fst rows = eye n"
proof (induction ks arbitrary: k upper rest)
  case Nil
  from Nil.prems(5) have "[k..<n] = []" by simp
  then have "n \<le> k" by auto
  with Nil.prems(4) have "k = n" by simp
  with Nil.prems show ?case by (simp add: unit_rows_eye)
next
  case (Cons k' ks)
  note prems = Cons.prems and IH = Cons.IH
  from prems(5) have "[k..<n] = k' # ks" by simp
  then have kn: "k < n" and k': "k' = k" and ks: "ks = [Suc k..<n]"
    by (auto simp: upt_eq_Cons_conv)
  let ?zs = "takeWhile (\<lambda>r. fst r ! k = 0) rest"
  from prems(8) k' obtain r below where
    d: "dropWhile (\<lambda>r. fst r ! k = 0) rest = r # below"
    and g: "gauss_jordan ks
              (map (row_elim k (row_scale (1 / fst r ! k) r)) upper @ [row_scale (1 / fst r ! k) r])
              (map (row_elim k (row_scale (1 / fst r ! k) r)) (?zs @ below)) = Some rows"
    by (auto split: list.splits)
  note st = pivot_step [OF prems(1,2,3) kn prems(6,7) d refl refl]
  have lu: "length (map (row_elim k (row_scale (1 / fst r ! k) r)) upper
                      @ [row_scale (1 / fst r ! k) r]) = Suc k"
    using prems(3) by simp
  from kn have skn: "Suc k \<le> n" by simp
  from IH [OF st(1) st(2) lu skn ks st(3) st(4) g] show ?case .
qed

lemma inner_u_sum:
  "length a = length x \<Longrightarrow> inner_u a x = (\<Sum>c<length a. a ! c * x ! c)"
proof -
  assume l: "length a = length x"
  have "map2 (*) a x = map (\<lambda>c. a ! c * x ! c) [0..<length a]"
    using l by (intro nth_equalityI) simp_all
  then show ?thesis
    by (simp add: inner_u_def interv_sum_list_conv_sum_set_nat atLeast0LessThan)
qed

lemma inner_u_unit:
  assumes "i < n" "length x = n"
  shows "inner_u (map (\<lambda>j. if i = j then 1 else 0) [0..<n]) x = x ! i"
proof -
  have "inner_u (map (\<lambda>j. if i = j then 1 else 0) [0..<n]) x
          = (\<Sum>c<n. (if i = c then 1 else 0) * x ! c)"
    using assms(2) by (subst inner_u_sum) simp_all
  also have "\<dots> = (\<Sum>c<n. if c = i then x ! c else 0)"
    by (intro sum.cong) auto
  also have "\<dots> = x ! i" using assms(1) by simp
  finally show ?thesis .
qed

lemma gauss_jordan_rows_ok:
  "list_all (row_ok n m) upper \<Longrightarrow> list_all (row_ok n m) rest \<Longrightarrow>
   gauss_jordan ks upper rest = Some rows \<Longrightarrow> list_all (row_ok n m) rows"
proof (induction ks arbitrary: upper rest)
  case Nil
  then show ?case by simp
next
  case (Cons k ks)
  note prems = Cons.prems and IH = Cons.IH
  let ?zs = "takeWhile (\<lambda>r. fst r ! k = 0) rest"
  from prems(3) obtain r below where
    d: "dropWhile (\<lambda>r. fst r ! k = 0) rest = r # below"
    and g: "gauss_jordan ks
              (map (row_elim k (row_scale (1 / fst r ! k) r)) upper @ [row_scale (1 / fst r ! k) r])
              (map (row_elim k (row_scale (1 / fst r ! k) r)) (?zs @ below)) = Some rows"
    by (auto split: list.splits)
  let ?p = "row_scale (1 / fst r ! k) r"
  from pivot_split(1) [OF d] have rest: "rest = ?zs @ r # below" .
  have "list_all (row_ok n m) (?zs @ r # below)" using prems(2) rest by simp
  then have okr: "row_ok n m r" and okz: "list_all (row_ok n m) (?zs @ below)"
    by (simp_all add: list_all_iff)
  have okp: "row_ok n m ?p" using okr by (rule row_ok_scale)
  have oku: "list_all (row_ok n m) (map (row_elim k ?p) upper @ [?p])"
    using rows_ok_elim [OF okp prems(1)] okp by simp
  have okr': "list_all (row_ok n m) (map (row_elim k ?p) (?zs @ below))"
    using okp okz by (rule rows_ok_elim)
  from IH [OF oku okr' g] show ?case .
qed

lemma rows_ok_zip:
  "is_square A \<Longrightarrow> length R = length A \<Longrightarrow> list_all (\<lambda>s. length s = m) R \<Longrightarrow>
     list_all (row_ok (length A) m) (zip A R)"
  by (auto simp: list_all_iff is_square_def row_ok_def set_zip)

lemma elimination_shape:
  assumes sq: "is_square A" and rhs: "length R = length A" "list_all (\<lambda>s. length s = m) R"
    and g: "gauss_jordan [0..<length A] [] (zip A R) = Some rows"
  shows "length rows = length A"
    and "list_all (\<lambda>r. length (snd r) = m) rows"
    and "map fst rows = eye (length A)"
proof -
  let ?n = "length A"
  have ok0: "list_all (row_ok ?n m) (zip A R)" using sq rhs by (rule rows_ok_zip)
  have okn: "list_all (row_ok ?n m) []" by simp
  from gauss_jordan_length [OF g] show "length rows = ?n" by simp
  show "map fst rows = eye ?n"
    using gauss_jordan_unit [OF okn ok0 _ _ refl _ _ g] by simp
  from gauss_jordan_rows_ok [OF okn ok0 g]
  show "list_all (\<lambda>r. length (snd r) = m) rows"
    by (simp add: list_all_iff row_ok_def)
qed

lemma elimination_solutions:
  assumes sq: "is_square A" and rhs: "length R = length A" "list_all (\<lambda>s. length s = m) R"
    and g: "gauss_jordan [0..<length A] [] (zip A R) = Some rows"
    and j: "j < m" and x: "length x = length A"
  shows "(\<forall>i<length A. inner_u (A ! i) x = R ! i ! j) = (\<forall>i<length A. x ! i = snd (rows ! i) ! j)"
proof -
  let ?n = "length A"
  have ok0: "list_all (row_ok ?n m) (zip A R)" using sq rhs by (rule rows_ok_zip)
  have okn: "list_all (row_ok ?n m) []" by simp
  note sh = elimination_shape [OF sq rhs g]
  from gauss_jordan_sol [OF okn ok0 j _ g, of x]
  have s: "list_all (sol j x) rows = list_all (sol j x) (zip A R)"
    using rhs(1) by simp
  have "list_all (sol j x) (zip A R) = (\<forall>i<?n. inner_u (A ! i) x = R ! i ! j)"
    using rhs(1) by (simp add: list_all_length sol_def)
  moreover have "list_all (sol j x) rows = (\<forall>i<?n. x ! i = snd (rows ! i) ! j)"
  proof -
    have "fst (rows ! i) = map (\<lambda>c. if i = c then 1 else 0) [0..<?n]" if "i < ?n" for i
    proof -
      from that sh(1) have "fst (rows ! i) = map fst rows ! i" by simp
      with that show ?thesis by (simp add: sh(3) eye_def)
    qed
    then have "sol j x (rows ! i) = (x ! i = snd (rows ! i) ! j)" if "i < ?n" for i
      using that x by (simp add: sol_def inner_u_unit)
    then show ?thesis using sh(1) by (simp add: list_all_length)
  qed
  ultimately show ?thesis using s by simp
qed

lemma dot_mv_eq_iff:
  assumes "is_square A" "length x = length A" "length b = length A"
  shows "(dot_mv A x = Inr b) = (\<forall>i<length A. inner_u (A ! i) x = b ! i)"
proof -
  have "list_all (\<lambda>r. length r = length x) A"
    using assms(1,2) by (simp add: is_square_def)
  then have "dot_mv A x = Inr (map (\<lambda>r. inner_u r x) A)" by (simp add: dot_mv_def)
  then show ?thesis using assms(3) by (auto simp: list_eq_iff_nth_eq)
qed

theorem la_solve_correct:
  assumes "la_solve A b = Inr d"
  shows "length d = length A \<and> dot_mv A d = Inr b
         \<and> (\<forall>x. length x = length A \<and> dot_mv A x = Inr b \<longrightarrow> x = d)"
proof -
  let ?n = "length A"
  let ?R = "map (\<lambda>x. [x]) b"
  from assms obtain rows where sq: "is_square A" and lb: "length b = ?n"
    and g: "gauss_jordan [0..<?n] [] (zip A ?R) = Some rows"
    and d: "d = map (\<lambda>r. hd (snd r)) rows"
    by (auto simp: la_solve_def split: if_splits option.splits)
  have r1: "length ?R = ?n" using lb by simp
  have r2: "list_all (\<lambda>s. length s = 1) ?R" by (simp add: list_all_iff)
  note er = elimination_shape [OF sq r1 r2 g]
  note es = elimination_solutions [OF sq r1 r2 g]
  from er(1) d have ld: "length d = ?n" by simp
  have hd0: "snd (rows ! i) ! 0 = d ! i" if "i < ?n" for i
  proof -
    from er(2) er(1) that have "length (snd (rows ! i)) = 1" by (simp add: list_all_length)
    then have "snd (rows ! i) ! 0 = hd (snd (rows ! i))"
      by (cases "snd (rows ! i)") simp_all
    with that er(1) d show ?thesis by simp
  qed
  have char: "(dot_mv A x = Inr b) = (x = d)" if x: "length x = ?n" for x
  proof -
    have "(dot_mv A x = Inr b) = (\<forall>i<?n. inner_u (A ! i) x = ?R ! i ! 0)"
      using lb by (simp add: dot_mv_eq_iff [OF sq x lb])
    also have "\<dots> = (\<forall>i<?n. x ! i = snd (rows ! i) ! 0)"
      using es [of 0 x] x by simp
    also have "\<dots> = (\<forall>i<?n. x ! i = d ! i)" using hd0 by simp
    also have "\<dots> = (x = d)" using x ld by (auto simp: list_eq_iff_nth_eq)
    finally show ?thesis .
  qed
  from char [OF ld] have "dot_mv A d = Inr b" by simp
  with ld char show ?thesis by blast
qed

theorem la_inv_correct:
  assumes "la_inv A = Inr B"
  shows "dot_mm A B = Inr (eye (length A))"
proof -
  let ?n = "length A"
  from assms obtain rows where sq: "is_square A"
    and g: "gauss_jordan [0..<?n] [] (zip A (eye ?n)) = Some rows"
    and B: "B = map snd rows"
    by (auto simp: la_inv_def split: if_splits option.splits)
  have r1: "length (eye ?n :: mat) = ?n" by (simp add: eye_def)
  have r2: "list_all (\<lambda>s. length s = ?n) (eye ?n :: mat)" by (simp add: list_all_iff eye_def)
  note er = elimination_shape [OF sq r1 r2 g]
  note es = elimination_solutions [OF sq r1 r2 g]
  from er(1) B have lB: "length B = ?n" by simp
  have rB: "length (B ! i) = ?n" if "i < ?n" for i
    using er(2) er(1) that B by (simp add: list_all_length)
  have chk: "list_all (\<lambda>r. length r = length B) A" using sq lB by (simp add: is_square_def)
  have nc: "ncols B = ?n"
  proof (cases B)
    case Nil
    with lB show ?thesis by (simp add: ncols_def)
  next
    case (Cons r rs)
    with lB have "0 < ?n" by auto
    from rB [OF this] Cons show ?thesis by (simp add: ncols_def)
  qed
  have entry: "inner_u (A ! i) (map (\<lambda>r. r ! j) B) = (if i = j then 1 else 0)"
    if i: "i < ?n" and j: "j < ?n" for i j
  proof -
    let ?x = "map (\<lambda>r. r ! j) B"
    have lx: "length ?x = ?n" using lB by simp
    have "\<forall>i<?n. ?x ! i = snd (rows ! i) ! j" using lB B er(1) by simp
    with es [OF j lx] have "\<forall>i<?n. inner_u (A ! i) ?x = (eye ?n :: mat) ! i ! j" by simp
    with i j show ?thesis by (simp add: eye_def)
  qed
  have "map (\<lambda>r. map (\<lambda>c. inner_u r c) (transpose_m B)) A = eye ?n"
  proof (rule nth_equalityI)
    show "length (map (\<lambda>r. map (\<lambda>c. inner_u r c) (transpose_m B)) A) = length (eye ?n :: mat)"
      by (simp add: eye_def)
  next
    fix i assume "i < length (map (\<lambda>r. map (\<lambda>c. inner_u r c) (transpose_m B)) A)"
    then have i: "i < ?n" by simp
    have "map (\<lambda>c. inner_u (A ! i) c) (transpose_m B) = map (\<lambda>j. if i = j then 1 else 0) [0..<?n]"
      using entry [OF i] by (simp add: transpose_m_def nc)
    with i show "map (\<lambda>r. map (\<lambda>c. inner_u r c) (transpose_m B)) A ! i = eye ?n ! i"
      by (simp add: eye_def)
  qed
  with chk show ?thesis by (simp add: dot_mm_def)
qed


lemma in_kernel_scale: "c \<noteq> 0 \<Longrightarrow> in_kernel x (row_scale c r) = in_kernel x r"
  by (simp add: in_kernel_def row_scale_def inner_u_map_scale)

lemma in_kernel_elim:
  "row_ok n m p \<Longrightarrow> row_ok n m u \<Longrightarrow> in_kernel x p \<Longrightarrow>
     in_kernel x (row_elim k p u) = in_kernel x u"
  by (simp add: in_kernel_def row_elim_def row_ok_def inner_u_elim)

lemma in_kernel_elim_rows:
  "row_ok n m p \<Longrightarrow> in_kernel x p \<Longrightarrow> list_all (row_ok n m) us \<Longrightarrow>
     list_all (in_kernel x) (map (row_elim k p) us) = list_all (in_kernel x) us"
  by (induction us) (simp_all add: in_kernel_elim)

lemma no_pivot_kernel:
  assumes oku: "list_all (row_ok n m) upper" and okr: "list_all (row_ok n m) rest"
    and len: "length upper = k" and kn: "k < n"
    and unit: "\<forall>i<k. \<forall>c<k. fst (upper ! i) ! c = (if i = c then 1 else 0)"
    and zero: "\<forall>r\<in>set rest. \<forall>c<k. fst r ! c = 0"
    and nop: "\<forall>r\<in>set rest. fst r ! k = 0"
  shows "\<exists>x. length x = n \<and> x \<noteq> replicate n 0 \<and> list_all (in_kernel x) (upper @ rest)"
proof -
  define x :: vec where
    "x = map (\<lambda>c. if c < k then - (fst (upper ! c) ! k) else if c = k then 1 else 0) [0..<n]"
  have lx: "length x = n" by (simp add: x_def)
  have xk: "x ! k = 1" using kn by (simp add: x_def)
  have nz: "x \<noteq> replicate n 0"
  proof
    assume "x = replicate n 0"
    then have "x ! k = replicate n 0 ! k" by simp
    with xk kn show False by simp
  qed
  have up: "in_kernel x (upper ! i)" if i: "i < k" for i
  proof -
    let ?u = "fst (upper ! i)"
    have lu: "length ?u = n" using oku len i by (simp add: list_all_length row_ok_def)
    have "?u ! c * x ! c = (if c = i then - (?u ! k) else 0) + (if c = k then ?u ! k else 0)"
      if c: "c < n" for c
    proof (cases "c < k")
      case True
      with unit i have "?u ! c = (if i = c then 1 else 0)" by simp
      with True c show ?thesis by (auto simp: x_def)
    next
      case False
      with c i show ?thesis by (auto simp: x_def)
    qed
    then have "inner_u ?u x
        = (\<Sum>c<n. (if c = i then - (?u ! k) else 0) + (if c = k then ?u ! k else 0))"
      using lu lx by (simp add: inner_u_sum)
    also have "\<dots> = - (?u ! k) + ?u ! k"
      using i kn by (simp add: sum.distrib)
    finally show ?thesis by (simp add: in_kernel_def)
  qed
  have low: "in_kernel x r" if r: "r \<in> set rest" for r
  proof -
    have lr: "length (fst r) = n" using okr r by (simp add: list_all_iff row_ok_def)
    have "fst r ! c * x ! c = 0" if c: "c < n" for c
    proof (cases "c \<le> k")
      case True
      with zero nop r have "fst r ! c = 0" by (cases "c = k") auto
      then show ?thesis by simp
    next
      case False
      with c show ?thesis by (simp add: x_def)
    qed
    then have "(\<Sum>c<n. fst r ! c * x ! c) = 0" by (intro sum.neutral) simp
    then show ?thesis using lr lx by (simp add: in_kernel_def inner_u_sum)
  qed
  have "list_all (in_kernel x) upper" using up len by (simp add: list_all_length)
  moreover have "list_all (in_kernel x) rest" using low by (simp add: list_all_iff)
  ultimately show ?thesis using lx nz by auto
qed


lemma gauss_jordan_none_kernel:
  "list_all (row_ok n m) upper \<Longrightarrow> list_all (row_ok n m) rest \<Longrightarrow>
   length upper = k \<Longrightarrow> k \<le> n \<Longrightarrow> ks = [k..<n] \<Longrightarrow>
   \<forall>i<k. \<forall>c<k. fst (upper ! i) ! c = (if i = c then 1 else 0) \<Longrightarrow>
   \<forall>r\<in>set rest. \<forall>c<k. fst r ! c = 0 \<Longrightarrow>
   gauss_jordan ks upper rest = None \<Longrightarrow>
   \<exists>x. length x = n \<and> x \<noteq> replicate n 0 \<and> list_all (in_kernel x) (upper @ rest)"
proof (induction ks arbitrary: k upper rest)
  case Nil
  then show ?case by simp
next
  case (Cons k' ks)
  note prems = Cons.prems and IH = Cons.IH
  from prems(5) have "[k..<n] = k' # ks" by simp
  then have kn: "k < n" and k': "k' = k" and ks: "ks = [Suc k..<n]"
    by (auto simp: upt_eq_Cons_conv)
  let ?zs = "takeWhile (\<lambda>r. fst r ! k = 0) rest"
  show ?case
  proof (cases "dropWhile (\<lambda>r. fst r ! k = 0) rest")
    case Nil
    then have "\<forall>r\<in>set rest. fst r ! k = 0" by (simp add: dropWhile_eq_Nil_conv)
    from no_pivot_kernel [OF prems(1,2,3) kn prems(6,7) this] show ?thesis .
  next
    case d: (Cons r below)
    let ?p = "row_scale (1 / fst r ! k) r"
    from prems(8) k' d have g: "gauss_jordan ks (map (row_elim k ?p) upper @ [?p])
              (map (row_elim k ?p) (?zs @ below)) = None"
      by simp
    note st = pivot_step [OF prems(1,2,3) kn prems(6,7) d refl refl]
    have lu: "length (map (row_elim k ?p) upper @ [?p]) = Suc k" using prems(3) by simp
    from kn have skn: "Suc k \<le> n" by simp
    from IH [OF st(1) st(2) lu skn ks st(3) st(4) g] obtain x where
      lx: "length x = n" and nz: "x \<noteq> replicate n 0"
      and ker: "list_all (in_kernel x)
                 ((map (row_elim k ?p) upper @ [?p]) @ map (row_elim k ?p) (?zs @ below))"
      by blast
    from pivot_split [OF d] have rest: "rest = ?zs @ r # below" and rk: "fst r ! k \<noteq> 0" .
    have "list_all (row_ok n m) (?zs @ r # below)" using prems(2) rest by simp
    then have okr: "row_ok n m r" and okz: "list_all (row_ok n m) (?zs @ below)"
      by (simp_all add: list_all_iff)
    have okp: "row_ok n m ?p" using okr by (rule row_ok_scale)
    from ker have kp: "in_kernel x ?p" by simp
    then have kr: "in_kernel x r" using rk by (simp add: in_kernel_scale)
    from ker in_kernel_elim_rows [OF okp kp prems(1)] in_kernel_elim_rows [OF okp kp okz]
    have "list_all (in_kernel x) upper" "list_all (in_kernel x) (?zs @ below)" by simp_all
    with kr have "list_all (in_kernel x) (upper @ ?zs @ r # below)" by simp
    with rest have "list_all (in_kernel x) (upper @ rest)" by simp
    with lx nz show ?thesis by blast
  qed
qed

theorem nonsingular_iff_trivial_kernel:
  assumes sq: "is_square A"
  shows "nonsingular A =
           (\<forall>x. length x = length A \<and> dot_mv A x = Inr (replicate (length A) 0)
                  \<longrightarrow> x = replicate (length A) 0)"
proof
  assume "nonsingular A"
  from la_solve_correct [OF la_solve_zero [OF this]]
  show "\<forall>x. length x = length A \<and> dot_mv A x = Inr (replicate (length A) 0)
                  \<longrightarrow> x = replicate (length A) 0"
    by blast
next
  let ?n = "length A"
  assume triv: "\<forall>x. length x = ?n \<and> dot_mv A x = Inr (replicate ?n 0) \<longrightarrow> x = replicate ?n 0"
  show "nonsingular A"
  proof (rule ccontr)
    assume "\<not> nonsingular A"
    with sq have g: "gauss_jordan [0..<?n] [] (zip A (eye ?n)) = None"
      by (auto simp: nonsingular_def la_inv_def split: option.splits)
    have r1: "length (eye ?n :: mat) = ?n" by (simp add: eye_def)
    have r2: "list_all (\<lambda>s. length s = ?n) (eye ?n :: mat)" by (simp add: list_all_iff eye_def)
    have ok0: "list_all (row_ok ?n ?n) (zip A (eye ?n))" using sq r1 r2 by (rule rows_ok_zip)
    have okn: "list_all (row_ok ?n ?n) []" by simp
    from gauss_jordan_none_kernel [OF okn ok0 _ _ refl _ _ g] obtain x where
      lx: "length x = ?n" and nz: "x \<noteq> replicate ?n 0"
      and ker: "list_all (in_kernel x) (zip A (eye ?n))"
      by auto
    from ker r1 have "\<forall>i<?n. inner_u (A ! i) x = 0"
      by (simp add: list_all_length in_kernel_def)
    then have "dot_mv A x = Inr (replicate ?n 0)"
      by (simp add: dot_mv_eq_iff [OF sq lx])
    with triv lx nz show False by blast
  qed
qed


subsection \<open>A zero residual\<close>

lemma rows_conj_transpose:
  "list_all (\<lambda>r. length r = length jac) (conjugate_m (transpose_m jac))"
  by (simp add: conjugate_m_def transpose_m_def list_all_iff)

lemma length_conj_transpose: "length (conjugate_m (transpose_m jac)) = ncols jac"
  by (simp add: conjugate_m_def transpose_m_def)

lemma those_length: "those xs = Some ys \<Longrightarrow> length ys = length xs"
  by (induction xs arbitrary: ys) (auto split: option.splits)

lemma power_v_length: "power_v d p = Inr w \<Longrightarrow> length w = length d"
  by (auto simp: power_v_def split: option.splits dest: those_length)

lemma r_matrix_length:
  "r_matrix jac g p m = Inr r \<Longrightarrow> length g = ncols jac \<Longrightarrow> length r = ncols jac"
  by (auto simp: r_matrix_def diag_m_def eye_def length_diag_of
      split: if_splits sum.splits dest: power_v_length)

lemma gn_h_mat_length: "gn_h_mat jac p lamb m = Inr h \<Longrightarrow> length h = ncols jac"
  by (auto simp: gn_h_mat_def add_m_def scale_m_def length_conj_transpose
      split: sum.splits dest!: length_dot_mm dest: r_matrix_length)

lemma map2_minus_zeros: "map2 (-) x (replicate (length x) 0) = (x::vec)"
  by (induction x) simp_all

lemma np_sub_zeros: "np_sub x (replicate (length x) 0) = Inr x"
  by (simp add: np_sub_def map2_minus_zeros)

lemma gn_body_zero_residual:
  assumes f: "fwd_solve self (cur_x0 st) = Some fs" and v: "fs_v fs = v"
    and m: "length v = length (fs_jac fs)" and n: "length (cur_x0 st) = ncols (fs_jac fs)"
    and h: "gn_h_mat (fs_jac fs) p (cur_lamb st) method = Inr h" and ns: "nonsingular h"
  shows "\<exists>st'. gn_body self v p method ld lmin st = Inr st' \<and> cur_x0 st' = cur_x0 st"
proof -
  let ?jh = "conjugate_m (transpose_m (fs_jac fs))"
  have r0: "np_sub v (fs_v fs) = Inr (replicate (length v) 0)"
    using v by (simp add: np_sub_self)
  have "list_all (\<lambda>r. length r = length v) ?jh"
    using rows_conj_transpose [of "fs_jac fs"] m by simp
  from dot_mv_zeros [OF this]
  have jr: "dot_mv ?jh (replicate (length v) 0) = Inr (replicate (ncols (fs_jac fs)) 0)"
    by (simp add: length_conj_transpose)
  from gn_h_mat_length [OF h] have lh: "length h = ncols (fs_jac fs)" .
  from la_solve_zero [OF ns] lh
  have d: "la_solve h (replicate (ncols (fs_jac fs)) 0) = Inr (replicate (ncols (fs_jac fs)) 0)"
    by simp
  have x: "np_sub (cur_x0 st) (replicate (ncols (fs_jac fs)) 0) = Inr (cur_x0 st)"
    using np_sub_zeros [of "cur_x0 st"] n by simp
  show ?thesis
    by (simp add: gn_body_via_h_mat f r0 jr h d x)
qed



subsection \<open>The adjacency matrix of \<^verbatim>\<open>sar\<close>\<close>

lemma set_argwhere_rows:
  "set (argwhere_rows el2no x) = {r. r < length el2no \<and> x \<in> set (el2no ! r)}"
proof -
  have one: "set (map (\<lambda>c. r) (filter (\<lambda>c. c = x) xs)) = (if x \<in> set xs then {r} else {})"
    for r :: nat and xs :: "int list"
    by (induction xs) auto
  show ?thesis
    unfolding argwhere_rows_def set_concat set_map image_image one
    by (auto split: if_splits)
qed

lemma set_triple: "length xs = 3 \<Longrightarrow> set xs = {xs ! 0, xs ! 1, xs ! 2}"
proof -
  assume "length xs = 3"
  then obtain a b c where "xs = [a, b, c]"
    by (cases xs; cases "tl xs"; cases "tl (tl xs)") auto
  then show ?thesis by simp
qed

lemma shares_node_iff:
  "shares_node el2no i j = (\<exists>a\<in>set (el2no ! i). a \<in> set (el2no ! j))"
  by (simp add: shares_node_def list_ex_iff)

lemma set_sar_idx:
  assumes "length (el2no ! i) = 3"
  shows "set (sar_idx el2no i) = {r. r < length el2no \<and> shares_node el2no i r}"
  by (auto simp: sar_idx_def np_unique_def set_argwhere_rows shares_node_iff set_triple [OF assms])

lemma distinct_sar_idx: "distinct (sar_idx el2no i)"
  by (simp add: sar_idx_def np_unique_def)

lemma shares_node_self: "el2no ! i \<noteq> [] \<Longrightarrow> shares_node el2no i i"
  by (cases "el2no ! i") (simp_all add: shares_node_def)

lemma set_neighbours:
  "set (neighbours el2no i) = {r. r < length el2no \<and> shares_node el2no i r} - {i}"
  by (auto simp: neighbours_def)

lemma distinct_neighbours: "distinct (neighbours el2no i)"
  by (simp add: neighbours_def)

lemma length_neighbours:
  "length (neighbours el2no i) = card ({r. r < length el2no \<and> shares_node el2no i r} - {i})"
proof -
  have "card (set (neighbours el2no i)) = length (neighbours el2no i)"
    using distinct_neighbours by (rule distinct_card)
  then show ?thesis by (simp only: set_neighbours)
qed

lemma length_sar_idx:
  assumes "length (el2no ! i) = 3" "i < length el2no"
  shows "length (sar_idx el2no i) = Suc (length (neighbours el2no i))"
proof -
  let ?S = "{r. r < length el2no \<and> shares_node el2no i r}"
  have fin: "finite ?S" by simp
  have "el2no ! i \<noteq> []" using assms(1) by auto
  then have "shares_node el2no i i" by (rule shares_node_self)
  with assms(2) have "i \<in> ?S" by simp
  with fin have c: "card ?S = Suc (card (?S - {i}))" by (simp only: card.remove)
  have "card (set (sar_idx el2no i)) = length (sar_idx el2no i)"
    using distinct_sar_idx by (rule distinct_card)
  then have "length (sar_idx el2no i) = card ?S"
    by (simp only: set_sar_idx [OF assms(1)])
  with c show ?thesis by (simp only: length_neighbours)
qed

lemma length_fold_update: "length (fold (\<lambda>j r. r[j := c]) js row) = length row"
  by (induction js arbitrary: row) simp_all

lemma nth_fold_update:
  "k < length row \<Longrightarrow> fold (\<lambda>j r. r[j := c]) js row ! k = (if k \<in> set js then c else row ! k)"
  by (induction js arbitrary: row) (auto simp: nth_list_update)

lemma sar_row_eye:
  assumes t: "length (el2no ! i) = 3" and i: "i < length el2no"
  shows "sar_row el2no i (eye (length el2no) ! i) = Inr (sar_row_of el2no i)"
proof -
  let ?n = "length el2no"
  let ?row = "eye ?n ! i :: real list"
  have row: "?row = map (\<lambda>j. if i = j then 1 else 0) [0..<?n]"
    using i by (simp add: eye_def)
  have "(fold (\<lambda>j r. r[j := - 1]) (sar_idx el2no i) ?row)
          [i := real (length (sar_idx el2no i)) - 1] = sar_row_of el2no i"
  proof (rule nth_equalityI)
    show "length ((fold (\<lambda>j r. r[j := - 1]) (sar_idx el2no i) ?row)
             [i := real (length (sar_idx el2no i)) - 1]) = length (sar_row_of el2no i)"
      by (simp add: length_fold_update row sar_row_of_def)
  next
    fix k
    assume "k < length ((fold (\<lambda>j r. r[j := - 1]) (sar_idx el2no i) ?row)
                  [i := real (length (sar_idx el2no i)) - 1])"
    then have k: "k < ?n" by (simp add: length_fold_update row)
    show "(fold (\<lambda>j r. r[j := - 1]) (sar_idx el2no i) ?row)
             [i := real (length (sar_idx el2no i)) - 1] ! k = sar_row_of el2no i ! k"
    proof (cases "k = i")
      case True
      with i show ?thesis
        by (simp add: length_fold_update row sar_row_of_def length_sar_idx [OF t i])
    next
      case False
      have "fold (\<lambda>j r. r[j := - 1]) (sar_idx el2no i) ?row ! k
              = (if k \<in> set (sar_idx el2no i) then - 1 else ?row ! k)"
        using k by (intro nth_fold_update) (simp add: row)
      with False k show ?thesis
        by (simp add: sar_row_of_def set_sar_idx [OF t] row)
    qed
  qed
  with t show ?thesis by (simp add: sar_row_def)
qed

lemma sar_loop_rows:
  "distinct js \<Longrightarrow> list_all (\<lambda>i. i < length d \<and> sar_row el2no i (d ! i) = Inr (f i)) js \<Longrightarrow>
     sar_loop el2no js d = Inr (map (\<lambda>k. if k \<in> set js then f k else d ! k) [0..<length d])"
proof (induction js arbitrary: d)
  case Nil
  then show ?case by (simp add: map_nth)
next
  case (Cons i js)
  from Cons.prems have i: "i < length d" and r: "sar_row el2no i (d ! i) = Inr (f i)"
    and ni: "i \<notin> set js" and dj: "distinct js"
    and rest: "list_all (\<lambda>j. j < length d \<and> sar_row el2no j (d ! j) = Inr (f j)) js"
    by simp_all
  have "list_all (\<lambda>j. j < length (d[i := f i])
                    \<and> sar_row el2no j (d[i := f i] ! j) = Inr (f j)) js"
    using rest ni i by (auto simp: list_all_iff nth_list_update)
  from Cons.IH [OF dj this]
  have "sar_loop el2no js (d[i := f i])
          = Inr (map (\<lambda>k. if k \<in> set js then f k else d[i := f i] ! k) [0..<length d])"
    by simp
  also have "map (\<lambda>k. if k \<in> set js then f k else d[i := f i] ! k) [0..<length d]
               = map (\<lambda>k. if k \<in> set (i # js) then f k else d ! k) [0..<length d]"
    using i by (auto simp: nth_list_update)
  finally show ?case using r by simp
qed

lemma length_eye: "length (eye n) = n"
  by (simp add: eye_def)

lemma sar_result:
  assumes "list_all (\<lambda>r. length r = 3) el2no"
  shows "sar el2no = Inr (map (sar_row_of el2no) [0..<length el2no])"
proof -
  let ?n = "length el2no"
  have "sar_row el2no i (eye ?n ! i) = Inr (sar_row_of el2no i)" if "i < ?n" for i
    using that assms by (intro sar_row_eye) (simp_all add: list_all_iff)
  then have "list_all (\<lambda>i. i < length (eye ?n :: real list list)
           \<and> sar_row el2no i (eye ?n ! i) = Inr (sar_row_of el2no i)) [0..<?n]"
    by (simp add: list_all_iff length_eye)
  from sar_loop_rows [OF _ this] show ?thesis
    by (simp add: sar_def length_eye cong: map_cong)
qed

lemma sum_sar_row_of:
  assumes "i < length el2no"
  shows "sum_list (sar_row_of el2no i) = 0"
proof -
  let ?n = "length el2no"
  let ?S = "{j. j < ?n \<and> j \<noteq> i \<and> shares_node el2no i j}"
  let ?f = "\<lambda>j. if j = i then real (length (neighbours el2no i))
              else if shares_node el2no i j then - 1 else 0 :: real"
  have "{r. r < ?n \<and> shares_node el2no i r} - {i} = ?S" by auto
  then have nb: "length (neighbours el2no i) = card ?S"
    by (simp only: length_neighbours)
  have "sum_list (sar_row_of el2no i) = sum ?f {0..<?n}"
    by (simp add: sar_row_of_def interv_sum_list_conv_sum_set_nat)
  also have "\<dots> = ?f i + sum ?f ({0..<?n} - {i})"
    using assms by (intro sum.remove) simp_all
  also have "sum ?f ({0..<?n} - {i}) = sum (\<lambda>j. - 1) ?S"
    by (intro sum.mono_neutral_cong_right) auto
  also have "\<dots> = - real (card ?S)" by simp
  finally show ?thesis using nb by simp
qed

lemma length_sar_row_of: "length (sar_row_of el2no i) = length el2no"
  by (simp add: sar_row_of_def)

lemma nth_sar_row_of:
  "j < length el2no \<Longrightarrow>
     sar_row_of el2no i ! j =
       (if j = i then real (length (neighbours el2no i))
        else if shares_node el2no i j then - 1 else 0)"
  by (simp add: sar_row_of_def)

text \<open>
  Claim C9. For every connectivity array of triangles (three nodes in each row),
  \<^verbatim>\<open>sar\<close> returns a square matrix \<open>D\<close> with, for every element \<open>i\<close>: \<open>D[i,i]\<close> the
  number of other elements that share a node with \<open>i\<close>, \<open>D[i,j] = -1\<close> for each of
  these neighbours, \<open>D[i,j] = 0\<close> for every other \<open>j \<noteq> i\<close>, and a row sum of 0.
\<close>

theorem sar_adjacency:
  "list_all (\<lambda>r. length r = 3) el2no \<longrightarrow>
     (\<exists>D. sar el2no = Inr D \<and> length D = length el2no
        \<and> (\<forall>i<length el2no.
              length (D ! i) = length el2no
              \<and> D ! i ! i = real (length (neighbours el2no i))
              \<and> (\<forall>j<length el2no. j \<noteq> i \<longrightarrow>
                    D ! i ! j = (if shares_node el2no i j then - 1 else 0))
              \<and> sum_list (D ! i) = 0))"
proof
  assume t: "list_all (\<lambda>r. length r = 3) el2no"
  let ?D = "map (sar_row_of el2no) [0..<length el2no]"
  have row: "?D ! i = sar_row_of el2no i" if "i < length el2no" for i
    using that by simp
  show "\<exists>D. sar el2no = Inr D \<and> length D = length el2no
        \<and> (\<forall>i<length el2no.
              length (D ! i) = length el2no
              \<and> D ! i ! i = real (length (neighbours el2no i))
              \<and> (\<forall>j<length el2no. j \<noteq> i \<longrightarrow>
                    D ! i ! j = (if shares_node el2no i j then - 1 else 0))
              \<and> sum_list (D ! i) = 0)"
  proof (intro exI conjI allI impI)
    show "sar el2no = Inr ?D" using t by (rule sar_result)
    show "length ?D = length el2no" by simp
  next
    fix i assume "i < length el2no"
    then show "length (?D ! i) = length el2no"
      by (simp only: row length_sar_row_of)
  next
    fix i assume i: "i < length el2no"
    then show "?D ! i ! i = real (length (neighbours el2no i))"
      by (simp add: nth_sar_row_of)
  next
    fix i j assume "i < length el2no" "j < length el2no" "j \<noteq> i"
    then show "?D ! i ! j = (if shares_node el2no i j then - 1 else 0)"
      by (simp only: row nth_sar_row_of if_False)
  next
    fix i assume "i < length el2no"
    then show "sum_list (?D ! i) = 0"
      by (simp only: row sum_sar_row_of)
  qed
qed


lemma np_unique_sort: "np_unique xs = sort (remdups xs)"
  by (simp only: np_unique_def sorted_list_of_set_sort_remdups)

lemmas sar_eval =
  sar_def sar_row_def sar_idx_def argwhere_rows_def np_unique_sort eye_def upt_rec

lemma sar_star:
  "sar [[0, 1, 2], [0, 3, 4], [0, 5, 6], [7, 8, 9]]
     = Inr [[2, - 1, - 1, 0], [- 1, 2, - 1, 0], [- 1, - 1, 2, 0], [0, 0, 0, 0]]"
  by (simp add: sar_eval)

theorem sar_adjacency_witness:
  "list_all (\<lambda>r. length r = 3) [[0, 1, 2], [0, 3, 4], [0, 5, 6], [7, 8, 9 :: int]]
   \<and> sar [[0, 1, 2], [0, 3, 4], [0, 5, 6], [7, 8, 9]]
       = Inr [[2, - 1, - 1, 0], [- 1, 2, - 1, 0], [- 1, - 1, 2, 0], [0, 0, 0, 0]]
   \<and> neighbours [[0, 1, 2], [0, 3, 4], [0, 5, 6], [7, 8, 9]] 0 = [1, 2]
   \<and> neighbours [[0, 1, 2], [0, 3, 4], [0, 5, 6], [7, 8, 9]] 3 = []"
  using sar_adjacency [of "[[0, 1, 2], [0, 3, 4], [0, 5, 6], [7, 8, 9]]"] sar_star
  by (simp add: neighbours_def shares_node_def upt_rec)

end
